theory Spec2Isabelle
  imports Complex_Main "HOL-Library.Sublist" "HOL-Library.Multiset"
begin

text \<open>
  A model of the tile downloader \<open>mbtilego\<close>: the Web-Mercator enumeration of the
  tiles of a bounding box (\<open>NewProjection\<close>, \<open>project_pixels\<close>, \<open>TileList\<close>), URL
  templating (\<open>getTileUrl\<close>), the writer with its row flip (\<open>flipped_y\<close>,
  \<open>addToMBTile\<close>), the preparation of the archive (\<open>prepareDatabase\<close>), and the
  pipeline of \<open>main\<close> with its fetch workers and its writer. The definitions come
  first, the properties follow.
\<close>

section \<open>The type float64\<close>

text \<open>
  A value of Go's \<open>float64\<close> (IEEE 754 binary64): a finite number, one of the two
  infinities, or NaN. The two zeros are one value \<open>Finite 0\<close>: the program never
  divides by zero and never inspects the sign of a zero, so it cannot tell them
  apart. Every operation below rounds its exact result to the nearest float64, so
  a \<open>Finite x\<close> that an operation returns always carries a number of the format
  (see \<open>representable\<close>).
\<close>

datatype f64 = Finite real | PosInf | NegInf | NaN

text \<open>
  The power \<open>2^e\<close> for an integer exponent of either sign.
\<close>

definition two_to :: "int \<Rightarrow> real" where
  "two_to e = (if 0 \<le> e then 2 ^ nat e else 1 / 2 ^ nat (- e))"

text \<open>
  Rounding of a real number to the nearest integer, a tie going to the even one.
\<close>

definition rne :: "real \<Rightarrow> int" where
  "rne r = (let n = \<lfloor>r\<rfloor>; d = r - of_int n in
            if d < 1 / 2 then n else if 1 / 2 < d then n + 1
            else if even n then n else n + 1)"

text \<open>
  The binary exponent of a number, \<open>2^(expo x) \<le> |x| < 2^(expo x + 1)\<close>, and the
  exponent of the unit in the last place of the float64 numbers near it: 52 bits
  below the exponent for a normal number, \<open>-1074\<close> for a subnormal one.
\<close>

definition expo :: "real \<Rightarrow> int" where
  "expo x = \<lfloor>log 2 \<bar>x\<bar>\<rfloor>"

definition ulp_exp :: "real \<Rightarrow> int" where
  "ulp_exp x = max (expo x) (- 1022) - 52"

text \<open>
  The nearest number with a significand of 53 bits, ties to even, before the test
  for overflow.
\<close>

definition round_real :: "real \<Rightarrow> real" where
  "round_real x =
     (if x = 0 then 0 else of_int (rne (x / two_to (ulp_exp x))) * two_to (ulp_exp x))"

text \<open>
  The float64 nearest to a real number (round to nearest, ties to even): a result
  of magnitude \<open>2^1024\<close> or more is an infinity.
\<close>

definition to_f64 :: "real \<Rightarrow> f64" where
  "to_f64 x =
     (let r = round_real x in
      if two_to 1024 \<le> r then PosInf
      else if r \<le> - two_to 1024 then NegInf
      else Finite r)"

text \<open>
  The numbers of the format: a significand below \<open>2^53\<close> and an exponent of the
  range of float64.
\<close>

definition representable :: "real \<Rightarrow> bool" where
  "representable x =
     (\<exists>m e. x = of_int m * two_to e \<and> \<bar>m\<bar> < 2 ^ 53 \<and> - 1074 \<le> e \<and> e \<le> 971)"

text \<open>
  The operators \<open>-x\<close>, \<open>x + y\<close>, \<open>x - y\<close>, \<open>x * y\<close> and \<open>x / y\<close> on \<open>float64\<close>. Each is
  one rounded operation: the compiler for amd64 does not fuse a multiplication
  with an addition.
\<close>

fun fneg :: "f64 \<Rightarrow> f64" where
  "fneg (Finite x) = Finite (- x)"
| "fneg PosInf = NegInf"
| "fneg NegInf = PosInf"
| "fneg NaN = NaN"

fun fadd :: "f64 \<Rightarrow> f64 \<Rightarrow> f64" where
  "fadd NaN b = NaN"
| "fadd a NaN = NaN"
| "fadd (Finite x) (Finite y) = to_f64 (x + y)"
| "fadd PosInf NegInf = NaN"
| "fadd NegInf PosInf = NaN"
| "fadd PosInf b = PosInf"
| "fadd NegInf b = NegInf"
| "fadd a PosInf = PosInf"
| "fadd a NegInf = NegInf"

definition fsub :: "f64 \<Rightarrow> f64 \<Rightarrow> f64" where
  "fsub a b = fadd a (fneg b)"

definition inf_of_sign :: "bool \<Rightarrow> f64" where
  "inf_of_sign negative = (if negative then NegInf else PosInf)"

fun fmul :: "f64 \<Rightarrow> f64 \<Rightarrow> f64" where
  "fmul NaN b = NaN"
| "fmul a NaN = NaN"
| "fmul (Finite x) (Finite y) = to_f64 (x * y)"
| "fmul (Finite x) PosInf = (if x = 0 then NaN else inf_of_sign (x < 0))"
| "fmul (Finite x) NegInf = (if x = 0 then NaN else inf_of_sign (0 < x))"
| "fmul PosInf (Finite y) = (if y = 0 then NaN else inf_of_sign (y < 0))"
| "fmul NegInf (Finite y) = (if y = 0 then NaN else inf_of_sign (0 < y))"
| "fmul PosInf PosInf = PosInf"
| "fmul NegInf NegInf = PosInf"
| "fmul PosInf NegInf = NegInf"
| "fmul NegInf PosInf = NegInf"

fun fdiv :: "f64 \<Rightarrow> f64 \<Rightarrow> f64" where
  "fdiv NaN b = NaN"
| "fdiv a NaN = NaN"
| "fdiv (Finite x) (Finite y) =
     (if y = 0 then (if x = 0 then NaN else inf_of_sign (x < 0)) else to_f64 (x / y))"
| "fdiv (Finite x) b = Finite 0"
| "fdiv PosInf (Finite y) = inf_of_sign (y < 0)"
| "fdiv NegInf (Finite y) = inf_of_sign (\<not> y < 0)"
| "fdiv a b = NaN"

text \<open>
  The comparisons \<open>a < b\<close> and \<open>a >= b\<close>: false whenever an operand is NaN.
\<close>

fun fless :: "f64 \<Rightarrow> f64 \<Rightarrow> bool" where
  "fless NaN b = False"
| "fless a NaN = False"
| "fless (Finite x) (Finite y) = (x < y)"
| "fless a NegInf = False"
| "fless PosInf b = False"
| "fless a PosInf = True"
| "fless NegInf b = True"

definition fge :: "f64 \<Rightarrow> f64 \<Rightarrow> bool" where
  "fge a b = (fless b a \<or> (a = b \<and> a \<noteq> NaN))"

section \<open>The functions of package math and the conversions\<close>

text \<open>
  \<open>math.Floor\<close> and \<open>math.Ceil\<close>: an infinity and NaN are returned unchanged. The
  integer next to a float64 is a float64, so there is no rounding.
\<close>

fun math_Floor :: "f64 \<Rightarrow> f64" where
  "math_Floor (Finite x) = Finite (of_int \<lfloor>x\<rfloor>)"
| "math_Floor a = a"

fun math_Ceil :: "f64 \<Rightarrow> f64" where
  "math_Ceil (Finite x) = Finite (of_int \<lceil>x\<rceil>)"
| "math_Ceil a = a"

text \<open>
  \<open>math.Max\<close> and \<open>math.Min\<close>, with their special cases in the order of the library:
  the infinity first, then NaN.
\<close>

definition math_Max :: "f64 \<Rightarrow> f64 \<Rightarrow> f64" where
  "math_Max a b =
     (if a = PosInf \<or> b = PosInf then PosInf
      else if a = NaN \<or> b = NaN then NaN
      else if fless b a then a else b)"

definition math_Min :: "f64 \<Rightarrow> f64 \<Rightarrow> f64" where
  "math_Min a b =
     (if a = NegInf \<or> b = NegInf then NegInf
      else if a = NaN \<or> b = NaN then NaN
      else if fless a b then a else b)"

text \<open>
  \<open>math.Pow(2, y)\<close> for an exponent \<open>y\<close> that is a whole number, the only use the
  program makes of \<open>math.Pow\<close>: the power of two is exact; it is \<open>+Inf\<close> from
  \<open>2^1024\<close> on and 0 below \<open>2^-1074\<close>.
\<close>

fun math_Pow2 :: "f64 \<Rightarrow> f64" where
  "math_Pow2 (Finite y) =
     (if 1024 \<le> y then PosInf else if y < - 1074 then Finite 0 else Finite (two_to \<lfloor>y\<rfloor>))"
| "math_Pow2 PosInf = PosInf"
| "math_Pow2 NegInf = Finite 0"
| "math_Pow2 NaN = NaN"

text \<open>
  \<open>math.Sin\<close> and \<open>math.Log\<close> are not part of the repository, and the library does
  not promise a correctly rounded result. They are parameters of the model: the
  properties of the enumeration hold for every pair of functions, unless a
  hypothesis on them is stated.
\<close>

record mathlib =
  math_Sin :: "f64 \<Rightarrow> f64"
  math_Log :: "f64 \<Rightarrow> f64"

text \<open>
  A library whose two functions are correctly rounded. It stands for the library
  in the closed examples.
\<close>

definition ideal_Sin :: "f64 \<Rightarrow> f64" where
  "ideal_Sin a = (case a of Finite x \<Rightarrow> to_f64 (sin x) | _ \<Rightarrow> NaN)"

definition ideal_Log :: "f64 \<Rightarrow> f64" where
  "ideal_Log a =
     (case a of
        Finite x \<Rightarrow> if x < 0 then NaN else if x = 0 then NegInf else to_f64 (ln x)
      | PosInf \<Rightarrow> PosInf
      | _ \<Rightarrow> NaN)"

definition ideal_lib :: mathlib where
  "ideal_lib = \<lparr>math_Sin = ideal_Sin, math_Log = ideal_Log\<rparr>"

text \<open>
  A library for which \<open>Sin(0) = 0\<close> and \<open>Log(1) = 0\<close>: both are special cases that
  the library of Go returns exactly.
\<close>

definition exact_at_origin :: "mathlib \<Rightarrow> bool" where
  "exact_at_origin lib = (math_Sin lib (Finite 0) = Finite 0 \<and> math_Log lib (Finite 1) = Finite 0)"

text \<open>
  The conversion \<open>float64(i)\<close> of an \<open>int\<close>: the nearest float64.
\<close>

definition float64_of_int :: "int \<Rightarrow> f64" where
  "float64_of_int i = to_f64 (of_int i)"

text \<open>
  Go's \<open>int\<close> has 64 bits. \<open>int64 i\<close> is the value of the type that the integer
  \<open>i\<close> wraps around to.
\<close>

definition MinInt64 :: int where
  "MinInt64 = - (2 ^ 63)"

definition int64 :: "int \<Rightarrow> int" where
  "int64 i = (i + 2 ^ 63) mod 2 ^ 64 - 2 ^ 63"

text \<open>
  The conversion \<open>int(f)\<close> of a \<open>float64\<close>: the fraction is discarded (truncation
  toward zero). When the value does not fit (also for an infinity and for NaN) the
  language leaves the result to the implementation; on amd64 the instruction
  \<open>CVTTSD2SQ\<close> returns the smallest \<open>int64\<close>.
\<close>

fun go_int :: "f64 \<Rightarrow> int" where
  "go_int (Finite x) =
     (let t = (if x < 0 then \<lceil>x\<rceil> else \<lfloor>x\<rfloor>)
      in if MinInt64 \<le> t \<and> t < 2 ^ 63 then t else MinInt64)"
| "go_int a = MinInt64"

section \<open>Numeric helpers of mbutil.go\<close>

text \<open>
  \<open>const DEG_TO_RAD = math.Pi / 180\<close>: an exact constant, rounded when it is used
  as a \<open>float64\<close>. \<open>const DEFAULT_TILE_SIZE = 256\<close>.
\<close>

definition DEG_TO_RAD :: f64 where
  "DEG_TO_RAD = to_f64 (pi / 180)"

definition DEFAULT_TILE_SIZE :: f64 where
  "DEFAULT_TILE_SIZE = Finite 256"

text \<open>\<open>func Round(value float64) float64\<close>\<close>

definition Round :: "f64 \<Rightarrow> f64" where
  "Round v =
     (if fless v (Finite 0) then math_Ceil (fsub v (Finite 0.5))
      else math_Floor (fadd v (Finite 0.5)))"

text \<open>
  Rounding half away from zero in exact arithmetic, as an integer: the reference
  that \<open>Round\<close> is compared with.
\<close>

definition half_away :: "real \<Rightarrow> int" where
  "half_away x = (if x < 0 then \<lceil>x - 1 / 2\<rceil> else \<lfloor>x + 1 / 2\<rfloor>)"

text \<open>\<open>func minMax(a, b, c float64) float64\<close>\<close>

definition minMax :: "f64 \<Rightarrow> f64 \<Rightarrow> f64 \<Rightarrow> f64" where
  "minMax a b c = (let max_of_a_b = math_Max a b in math_Min max_of_a_b c)"

section \<open>Tiles and the projection\<close>

text \<open>
  \<open>type Tile struct { z, x, y int; Content []byte }\<close>. The coordinate fields
  carry the prefix \<open>tile_\<close> so that \<open>x\<close>, \<open>y\<close> and \<open>z\<close> stay usable as
  variables; the content is a list of byte values.
\<close>

record Tile =
  tile_z :: int
  tile_x :: int
  tile_y :: int
  Content :: "nat list"

text \<open>\<open>Tile{z: zoom, x: x, y: y}\<close>: the content is the nil slice.\<close>

definition mkTile :: "int \<Rightarrow> int \<Rightarrow> int \<Rightarrow> Tile" where
  "mkTile zoom i j = \<lparr>tile_z = zoom, tile_x = i, tile_y = j, Content = []\<rparr>"

text \<open>
  \<open>type Projection struct\<close>. Every element of \<open>Zc\<close> is a slice of exactly two
  numbers in the source, modelled as a pair.
\<close>

record Projection =
  Bc :: "f64 list"
  Cc :: "f64 list"
  Ac :: "f64 list"
  Zc :: "(f64 \<times> f64) list"
  levels :: "int list"
  xmin :: f64
  ymin :: f64
  xmax :: f64
  ymax :: f64

text \<open>A slice index outside the slice is a run-time panic.\<close>

datatype error = IndexOutOfRange

definition index_ok :: "int \<Rightarrow> 'a list \<Rightarrow> bool" where
  "index_ok i xs = (0 \<le> i \<and> nat i < length xs)"

text \<open>
  The second loop of \<open>NewProjection\<close>: \<open>for i := 0; i <= max_zoomlevel; i++\<close>
  appends one entry to each table and doubles \<open>c\<close>. The divisor \<open>2.0*math.Pi\<close> is
  a constant expression: it is evaluated exactly and rounded once.
\<close>

function scale_loop :: "int \<Rightarrow> int \<Rightarrow> f64 \<Rightarrow> Projection \<Rightarrow> Projection" where
  "scale_loop i max_zoomlevel c proj =
     (if i \<le> max_zoomlevel
      then (let e = fdiv c (Finite 2.0) in
            scale_loop (i + 1) max_zoomlevel (fmul c (Finite 2))
              (proj\<lparr>Bc := Bc proj @ [fdiv c (Finite 360.0)],
                    Cc := Cc proj @ [fdiv c (to_f64 (2.0 * pi))],
                    Zc := Zc proj @ [(e, e)],
                    Ac := Ac proj @ [c]\<rparr>))
      else proj)"
  by pat_completeness auto
termination
  by (relation "measure (\<lambda>(i, m, c, p). nat (m + 1 - i))") auto

declare scale_loop.simps [simp del]

text \<open>
  \<open>func NewProjection(xmin, ymin, xmax, ymax float64, zoomlevel, max_zoomlevel int)\<close>.
  The first loop appends \<open>zoomlevel, zoomlevel+1, ..., max_zoomlevel\<close> to
  \<open>levels\<close>, which is the list \<open>[zoomlevel..max_zoomlevel]\<close>.
\<close>

definition NewProjection ::
  "f64 \<Rightarrow> f64 \<Rightarrow> f64 \<Rightarrow> f64 \<Rightarrow> int \<Rightarrow> int \<Rightarrow> Projection" where
  "NewProjection x0 y0 x1 y1 zoomlevel max_zoomlevel =
     scale_loop 0 max_zoomlevel DEFAULT_TILE_SIZE
       \<lparr>Bc = [], Cc = [], Ac = [], Zc = [],
        levels = [zoomlevel..max_zoomlevel],
        xmin = x0, ymin = y0, xmax = x1, ymax = y1\<rparr>"

text \<open>
  \<open>func (proj *Projection) project_pixels(x, y float64, zoom int) []float64\<close>.
  The three table reads panic when \<open>zoom\<close> is not an index of the table. In
  \<open>0.5*math.Log(...)*-proj.Cc[zoom]\<close> the product is taken from the left and the
  sign belongs to the table entry.
\<close>

definition project_pixels ::
  "mathlib \<Rightarrow> Projection \<Rightarrow> f64 \<Rightarrow> f64 \<Rightarrow> int \<Rightarrow> error + (f64 \<times> f64)" where
  "project_pixels lib proj lon lat zoom =
     (if \<not> index_ok zoom (Zc proj) then Inl IndexOutOfRange
      else let d = Zc proj ! nat zoom in
      if \<not> index_ok zoom (Bc proj) then Inl IndexOutOfRange
      else let e = Round (fadd (fst d) (fmul lon (Bc proj ! nat zoom)));
               f = minMax (math_Sin lib (fmul DEG_TO_RAD lat)) (to_f64 (- 0.9999)) (to_f64 0.9999) in
      if \<not> index_ok zoom (Cc proj) then Inl IndexOutOfRange
      else let g = Round (fadd (snd d)
                     (fmul (fmul (Finite 0.5)
                              (math_Log lib (fdiv (fadd (Finite 1) f) (fsub (Finite 1) f))))
                           (fneg (Cc proj ! nat zoom))))
      in Inr (e, g))"

text \<open>
  The test of both loops of \<open>TileList\<close> that skips an index:
  \<open>x < 0 || float64(x) >= two_power_zoom\<close>.
\<close>

definition skipped :: "f64 \<Rightarrow> int \<Rightarrow> bool" where
  "skipped two_power_zoom k = (k < 0 \<or> fge (float64_of_int k) two_power_zoom)"

text \<open>
  The inner loop of \<open>TileList\<close>:
  \<open>for y := yrangeStart; y <= yrangeEnd; y++\<close>, appending to \<open>tilelist\<close>. The
  bounds of the loops are results of \<open>int(...)\<close> of a float64, which lie between
  \<open>-2^63\<close> and \<open>2^63 - 1024\<close>: the increment of the counter never wraps around.
\<close>

function y_loop :: "int \<Rightarrow> f64 \<Rightarrow> int \<Rightarrow> int \<Rightarrow> int \<Rightarrow> Tile list \<Rightarrow> Tile list" where
  "y_loop zoom two_power_zoom i j yrangeEnd tilelist =
     (if j \<le> yrangeEnd
      then (if j < 0 \<or> fge (float64_of_int j) two_power_zoom
            then y_loop zoom two_power_zoom i (j + 1) yrangeEnd tilelist
            else y_loop zoom two_power_zoom i (j + 1) yrangeEnd
                   (tilelist @ [mkTile zoom i j]))
      else tilelist)"
  by pat_completeness auto
termination
  by (relation "measure (\<lambda>(zoom, t, i, j, e, acc). nat (e + 1 - j))") auto

declare y_loop.simps [simp del]

text \<open>
  The middle loop of \<open>TileList\<close>:
  \<open>for x := xrangeStart; x <= xrangeEnd; x++\<close>; the row range is computed
  inside it, from the same two pixel pairs.
\<close>

function x_loop ::
  "int \<Rightarrow> f64 \<Rightarrow> f64 \<times> f64 \<Rightarrow> f64 \<times> f64 \<Rightarrow> int \<Rightarrow> int \<Rightarrow> Tile list \<Rightarrow> Tile list" where
  "x_loop zoom two_power_zoom px0 px1 i xrangeEnd tilelist =
     (if i \<le> xrangeEnd
      then (if i < 0 \<or> fge (float64_of_int i) two_power_zoom
            then x_loop zoom two_power_zoom px0 px1 (i + 1) xrangeEnd tilelist
            else (let yrangeStart = go_int (fdiv (snd px0) DEFAULT_TILE_SIZE);
                      yrangeEnd = go_int (fdiv (snd px1) DEFAULT_TILE_SIZE)
                  in x_loop zoom two_power_zoom px0 px1 (i + 1) xrangeEnd
                       (y_loop zoom two_power_zoom i yrangeStart yrangeEnd tilelist)))
      else tilelist)"
  by pat_completeness auto
termination
  by (relation "measure (\<lambda>(zoom, t, p0, p1, i, e, acc). nat (e + 1 - i))") auto

declare x_loop.simps [simp del]

text \<open>
  The outer loop of \<open>TileList\<close>, \<open>for _, zoom := range proj.levels\<close>. A panic
  in \<open>project_pixels\<close> ends the whole call.
\<close>

fun level_loop :: "mathlib \<Rightarrow> Projection \<Rightarrow> int list \<Rightarrow> Tile list \<Rightarrow> error + Tile list" where
  "level_loop lib proj [] tilelist = Inr tilelist"
| "level_loop lib proj (zoom # rest) tilelist =
     (let two_power_zoom = math_Pow2 (float64_of_int zoom) in
      case project_pixels lib proj (xmin proj) (ymax proj) zoom of
        Inl err \<Rightarrow> Inl err
      | Inr px0 \<Rightarrow>
         (case project_pixels lib proj (xmax proj) (ymin proj) zoom of
            Inl err \<Rightarrow> Inl err
          | Inr px1 \<Rightarrow>
             (let xrangeStart = go_int (fdiv (fst px0) DEFAULT_TILE_SIZE);
                  xrangeEnd = go_int (fdiv (fst px1) DEFAULT_TILE_SIZE)
              in level_loop lib proj rest
                   (x_loop zoom two_power_zoom px0 px1 xrangeStart xrangeEnd tilelist))))"

text \<open>\<open>func (proj *Projection) TileList() []Tile\<close>\<close>

definition TileList :: "mathlib \<Rightarrow> Projection \<Rightarrow> error + Tile list" where
  "TileList lib proj = level_loop lib proj (levels proj) []"

section \<open>The enumeration in closed form\<close>

text \<open>
  The index \<open>k\<close> is kept when the test of the loops is false.
\<close>

definition in_grid :: "f64 \<Rightarrow> int \<Rightarrow> bool" where
  "in_grid two_power_zoom k = (\<not> (k < 0 \<or> fge (float64_of_int k) two_power_zoom))"

text \<open>
  What one run of the inner loop appends for column \<open>i\<close>: the rows of
  \<open>ys, ys+1, ..., ye\<close> that pass the test, in ascending order.
\<close>

definition column_tiles :: "int \<Rightarrow> f64 \<Rightarrow> int \<Rightarrow> int \<Rightarrow> int \<Rightarrow> Tile list" where
  "column_tiles zoom t ys ye i = map (mkTile zoom i) (filter (in_grid t) [ys..ye])"

text \<open>
  What the two inner loops append for one zoom level: for each column of
  \<open>xs, ..., xe\<close> that passes the test, in ascending order, its rows.
\<close>

definition grid_tiles :: "int \<Rightarrow> f64 \<Rightarrow> int \<Rightarrow> int \<Rightarrow> int \<Rightarrow> int \<Rightarrow> Tile list" where
  "grid_tiles zoom t xs xe ys ye =
     concat (map (column_tiles zoom t ys ye) (filter (in_grid t) [xs..xe]))"

text \<open>
  The values \<open>c, 2c, 4c, ...\<close> that \<open>c\<close> takes in the table loop, each doubling
  being a float64 product, and the value at level \<open>k\<close> when the loop starts from
  256.
\<close>

fun geom_tab :: "f64 \<Rightarrow> nat \<Rightarrow> f64 list" where
  "geom_tab c 0 = []"
| "geom_tab c (Suc n) = c # geom_tab (fmul c (Finite 2)) n"

fun scale :: "nat \<Rightarrow> f64" where
  "scale 0 = Finite 256"
| "scale (Suc k) = fmul (scale k) (Finite 2)"

text \<open>
  The value \<open>f\<close> of \<open>project_pixels\<close>.
\<close>

definition clamped_sin :: "mathlib \<Rightarrow> f64 \<Rightarrow> f64" where
  "clamped_sin lib lat =
     minMax (math_Sin lib (fmul DEG_TO_RAD lat)) (to_f64 (- 0.9999)) (to_f64 0.9999)"

text \<open>
  The pixel column of a longitude at level \<open>k\<close>: the value \<open>e\<close> of \<open>project_pixels\<close>
  with the entries of the tables written out.
\<close>

definition pixel_x :: "nat \<Rightarrow> f64 \<Rightarrow> f64" where
  "pixel_x k lon =
     Round (fadd (fdiv (scale k) (Finite 2)) (fmul lon (fdiv (scale k) (Finite 360))))"

text \<open>
  The pixel row of a latitude at level \<open>k\<close>: the value \<open>g\<close> of \<open>project_pixels\<close>.
\<close>

definition pixel_y :: "mathlib \<Rightarrow> nat \<Rightarrow> f64 \<Rightarrow> f64" where
  "pixel_y lib k lat =
     Round (fadd (fdiv (scale k) (Finite 2))
              (fmul (fmul (Finite 0.5)
                       (math_Log lib (fdiv (fadd (Finite 1) (clamped_sin lib lat))
                                           (fsub (Finite 1) (clamped_sin lib lat)))))
                    (fneg (fdiv (scale k) (to_f64 (2 * pi))))))"

text \<open>
  The tile index of a pixel coordinate: \<open>int(px / DEFAULT_TILE_SIZE)\<close>.
\<close>

definition tile_index :: "f64 \<Rightarrow> int" where
  "tile_index px = go_int (fdiv px DEFAULT_TILE_SIZE)"

text \<open>
  The tiles of one zoom level: the corners \<open>(xmin, ymax)\<close> and \<open>(xmax, ymin)\<close> give
  the inclusive index ranges; the indices that fail the test are skipped.
\<close>

definition level_tiles :: "mathlib \<Rightarrow> f64 \<Rightarrow> f64 \<Rightarrow> f64 \<Rightarrow> f64 \<Rightarrow> int \<Rightarrow> Tile list" where
  "level_tiles lib x0 y0 x1 y1 zoom =
     grid_tiles zoom (math_Pow2 (float64_of_int zoom))
       (tile_index (pixel_x (nat zoom) x0)) (tile_index (pixel_x (nat zoom) x1))
       (tile_index (pixel_y lib (nat zoom) y1)) (tile_index (pixel_y lib (nat zoom) y0))"

text \<open>
  One iteration of the outer loop of \<open>TileList\<close>, as a function of the zoom level:
  the two projections (each may panic) and the tiles the inner loops append.
\<close>

definition raw_level :: "mathlib \<Rightarrow> Projection \<Rightarrow> int \<Rightarrow> error + Tile list" where
  "raw_level lib proj zoom =
     (case project_pixels lib proj (xmin proj) (ymax proj) zoom of
        Inl err \<Rightarrow> Inl err
      | Inr px0 \<Rightarrow>
         (case project_pixels lib proj (xmax proj) (ymin proj) zoom of
            Inl err \<Rightarrow> Inl err
          | Inr px1 \<Rightarrow>
              Inr (grid_tiles zoom (math_Pow2 (float64_of_int zoom))
                     (tile_index (fst px0)) (tile_index (fst px1))
                     (tile_index (snd px0)) (tile_index (snd px1)))))"

text \<open>
  The enumeration order: ascending zoom, then ascending column, then ascending row.
\<close>

definition tile_before :: "Tile \<Rightarrow> Tile \<Rightarrow> bool" where
  "tile_before a b =
     (tile_z a < tile_z b \<or>
      (tile_z a = tile_z b \<and>
         (tile_x a < tile_x b \<or> (tile_x a = tile_x b \<and> tile_y a < tile_y b))))"

text \<open>
  The float64 \<open>v\<close> is finite and lies between two bounds.
\<close>

definition between :: "real \<Rightarrow> real \<Rightarrow> f64 \<Rightarrow> bool" where
  "between lo hi v = (case v of Finite x \<Rightarrow> lo \<le> x \<and> x \<le> hi | _ \<Rightarrow> False)"

section \<open>URL templating\<close>

text \<open>
  The decimal digit of a value below ten.
\<close>

definition digit_char :: "nat \<Rightarrow> char" where
  "digit_char d = ''0123456789'' ! d"

text \<open>
  The decimal digits of a natural number, most significant first.
\<close>

fun digits :: "nat \<Rightarrow> string" where
  "digits n = (if n < 10 then [digit_char n] else digits (n div 10) @ [digit_char (n mod 10)])"

declare digits.simps [simp del]

text \<open>
  \<open>strconv.Itoa\<close>: the decimal text of an integer, with a leading minus sign for
  a negative one.
\<close>

definition Itoa :: "int \<Rightarrow> string" where
  "Itoa i = (if i < 0 then CHR ''-'' # digits (nat (- i)) else digits (nat i))"

text \<open>
  \<open>strings.Replace\<close> for a non-empty \<open>old\<close>: scanning from the left, the first
  \<open>n\<close> non-overlapping occurrences of \<open>old\<close> are replaced by \<open>new\<close>; a negative
  \<open>n\<close> puts no limit on the number of replacements.
\<close>

function replace_from :: "string \<Rightarrow> string \<Rightarrow> string \<Rightarrow> int \<Rightarrow> string" where
  "replace_from [] old new n = []"
| "replace_from (c # cs) old new n =
     (if n = 0 \<or> old = [] then c # cs
      else if prefix old (c # cs)
           then new @ replace_from (drop (length old) (c # cs)) old new (n - 1)
           else c # replace_from cs old new n)"
  by pat_completeness auto
termination
  by (relation "measure (\<lambda>(s, old, new, n). length s)") auto

declare replace_from.simps [simp del]

text \<open>
  \<open>strings.Replace\<close> for the empty \<open>old\<close>, which matches at the beginning of the
  string and after each character (each byte is taken as one character), up to
  \<open>n\<close> replacements.
\<close>

fun replace_empty :: "string \<Rightarrow> string \<Rightarrow> int \<Rightarrow> string" where
  "replace_empty [] new n = (if n = 0 then [] else new)"
| "replace_empty (c # cs) new n =
     (if n = 0 then c # cs else new @ c # replace_empty cs new (n - 1))"

text \<open>
  \<open>strings.Replace(s, old, new, n)\<close> of the Go standard library.
\<close>

definition Replace :: "string \<Rightarrow> string \<Rightarrow> string \<Rightarrow> int \<Rightarrow> string" where
  "Replace s old new n =
     (if old = new \<or> n = 0 then s
      else if old = [] then replace_empty s new n
      else replace_from s old new n)"

text \<open>
  \<open>func getTileUrl(z, x, y int, url_format string) string\<close>: three calls of
  \<open>strings.Replace\<close> with \<open>n = -1\<close>, for \<open>{x}\<close>, then \<open>{y}\<close>, then \<open>{z}\<close>.
\<close>

definition getTileUrl :: "int \<Rightarrow> int \<Rightarrow> int \<Rightarrow> string \<Rightarrow> string" where
  "getTileUrl zv xv yv url_format =
     (let tile_url = Replace url_format ''{x}'' (Itoa xv) (- 1);
          tile_url = Replace tile_url ''{y}'' (Itoa yv) (- 1);
          tile_url = Replace tile_url ''{z}'' (Itoa zv) (- 1)
      in tile_url)"

text \<open>
  Substitution in one pass, as the specification describes URL templating: scanning
  from the left, every placeholder \<open>{b}\<close> whose letter \<open>b\<close> has a value in \<open>m\<close> is
  replaced by that value; the inserted text is not scanned again.
\<close>

fun substitute :: "(char \<Rightarrow> string option) \<Rightarrow> string \<Rightarrow> string" where
  "substitute m (a # b # c # rest) =
     (if a = CHR ''{'' \<and> c = CHR ''}''
      then (case m b of Some v \<Rightarrow> v @ substitute m rest
                      | None \<Rightarrow> a # substitute m (b # c # rest))
      else a # substitute m (b # c # rest))"
| "substitute m s = s"

text \<open>
  The table \<open>m\<close> extended by the value \<open>v\<close> for the letter \<open>k\<close>.
\<close>

definition bind :: "char \<Rightarrow> string \<Rightarrow> (char \<Rightarrow> string option) \<Rightarrow> (char \<Rightarrow> string option)" where
  "bind k v m = (\<lambda>b. if b = k then Some v else m b)"

text \<open>
  The table without any placeholder.
\<close>

definition no_token :: "char \<Rightarrow> string option" where
  "no_token = (\<lambda>b. None)"

text \<open>
  The three placeholders of a tile URL with their decimal values.
\<close>

definition placeholders :: "int \<Rightarrow> int \<Rightarrow> int \<Rightarrow> (char \<Rightarrow> string option)" where
  "placeholders zv xv yv =
     bind (CHR ''z'') (Itoa zv) (bind (CHR ''y'') (Itoa yv) (bind (CHR ''x'') (Itoa xv) no_token))"

text \<open>
  The placeholder \<open>{k}\<close> occurs in the string.
\<close>

fun has_token :: "char \<Rightarrow> string \<Rightarrow> bool" where
  "has_token k (a # b # c # rest) =
     ((a = CHR ''{'' \<and> b = k \<and> c = CHR ''}'') \<or> has_token k (b # c # rest))"
| "has_token k s = False"

text \<open>
  A non-empty text of decimal digits and minus signs.
\<close>

definition plain :: "string \<Rightarrow> bool" where
  "plain v = (v \<noteq> [] \<and> set v \<subseteq> set ''-0123456789'')"

text \<open>
  The ten digit characters.
\<close>

definition digit_chars :: "char set" where
  "digit_chars = set ''0123456789''"

text \<open>
  A placeholder letter is neither a digit, a minus sign nor a brace.
\<close>

definition key_ok :: "char \<Rightarrow> bool" where
  "key_ok k = (k \<notin> set ''-0123456789{}'')"

text \<open>
  Every value of the table is plain and every letter is a placeholder letter.
\<close>

definition wf_map :: "(char \<Rightarrow> string option) \<Rightarrow> bool" where
  "wf_map m = (\<forall>b v. m b = Some v \<longrightarrow> plain v \<and> key_ok b)"

section \<open>The tile store and the pipeline\<close>

text \<open>
  A key of the table \<open>tiles\<close>: \<open>(zoom_level, tile_column, tile_row)\<close>.
\<close>

type_synonym tile_key = "int \<times> int \<times> int"

text \<open>
  The table \<open>tiles\<close> of an archive whose rows have distinct keys, as the unique
  index \<open>tile_index\<close> enforces: at most one blob (\<open>tile_data\<close>) per key. The
  table \<open>metadata\<close> is not modelled; no claim is about its contents.
\<close>

type_synonym store = "tile_key \<Rightarrow> nat list option"

text \<open>
  The files the program can touch: the archive stored under a path, if any.
\<close>

type_synonym filesystem = "string \<Rightarrow> store option"

text \<open>
  An error of \<open>db.Exec\<close> or \<open>sql.Open\<close>: the violated unique index, or any other
  failure of the database. An error of \<open>os.Remove\<close>: there is no such file, or the
  system refuses to remove it.
\<close>

datatype sql_error = UniqueConstraint | SqlFailure

datatype os_error = NotExist | NotPermitted

text \<open>
  The three programs of the repository: \<open>src/mbutil.go\<close>; the second program of
  \<open>src/unnamed/part_000\<close> (it declares \<open>VERSION\<close> and writes metadata); and the first
  program of that file, which enumerates with the \<open>gosm\<close> library.
\<close>

datatype variant = Mbutil | Versioned | Gosm

text \<open>
  The answers of the environment during a run: whether the system refuses to
  remove an existing file, whether \<open>sql.Open\<close> fails, and whether executing a given
  statement fails. (An insertion can fail in any case; see \<open>write_err\<close> below.)
\<close>

record sql_env =
  remove_fails :: bool
  open_fails :: bool
  exec_fails :: "string \<Rightarrow> bool"

text \<open>
  \<open>func (tile *Tile) flipped_y() int\<close> of \<open>src/mbutil.go\<close> and of the second program
  of \<open>part_000\<close>. The two subtractions are operations of \<open>int\<close> and wrap around.
\<close>

definition flipped_y :: "Tile \<Rightarrow> int" where
  "flipped_y tile =
     (let two_power_zoom = math_Pow2 (float64_of_int (tile_z tile))
      in int64 (int64 (go_int two_power_zoom - 1) - tile_y tile))"

text \<open>
  The statement \<open>insert into tiles (zoom_level, tile_column, tile_row, tile_data) values (?, ?, ?, ?);\<close>
  it fails when the key is already present (unique index).
\<close>

definition insert_tile :: "tile_key \<Rightarrow> nat list \<Rightarrow> store \<Rightarrow> sql_error + store" where
  "insert_tile k blob db =
     (if db k \<noteq> None then Inl UniqueConstraint else Inr (db(k \<mapsto> blob)))"

text \<open>
  \<open>func addToMBTile(tile Tile, db *sql.DB) error\<close> of \<open>src/mbutil.go\<close> (lines 110 to
  116) and of the second program of \<open>part_000\<close>: the row is \<open>tile.flipped_y()\<close>.
\<close>

definition addToMBTile :: "Tile \<Rightarrow> store \<Rightarrow> sql_error + store" where
  "addToMBTile tile db =
     insert_tile (tile_z tile, tile_x tile, flipped_y tile) (Content tile) db"

text \<open>
  \<open>func addToMBTile\<close> of the first program of \<open>part_000\<close> (lines 94 to 100): the row
  is \<open>tile.y\<close>.
\<close>

definition addToMBTile_gosm :: "Tile \<Rightarrow> store \<Rightarrow> sql_error + store" where
  "addToMBTile_gosm tile db =
     insert_tile (tile_z tile, tile_x tile, tile_y tile) (Content tile) db"

text \<open>
  \<open>os.Remove(filename)\<close>: the file system afterwards and the error. The call fails
  when there is no file, and when the system refuses to remove the file; then
  the file system is unchanged.
\<close>

definition os_Remove :: "sql_env \<Rightarrow> filesystem \<Rightarrow> string \<Rightarrow> filesystem \<times> os_error option" where
  "os_Remove env fs name =
     (case fs name of
        None \<Rightarrow> (fs, Some NotExist)
      | Some db \<Rightarrow> if remove_fails env then (fs, Some NotPermitted) else (fs(name := None), None))"

text \<open>
  \<open>sql.Open("sqlite3", filename)\<close> together with the first access: an existing archive
  is opened as it is, a missing one is created empty. The handle is the path.
\<close>

definition sql_Open :: "sql_env \<Rightarrow> filesystem \<Rightarrow> string \<Rightarrow> filesystem \<times> (sql_error + string)" where
  "sql_Open env fs name =
     (if open_fails env then (fs, Inl SqlFailure)
      else ((case fs name of None \<Rightarrow> fs(name \<mapsto> Map.empty) | Some db \<Rightarrow> fs), Inr name))"

text \<open>
  \<open>func optimizeConnection(db *sql.DB) error\<close>: three statements, the first failure
  is returned.
\<close>

definition optimizeConnection :: "sql_env \<Rightarrow> sql_error + unit" where
  "optimizeConnection env =
     (if exec_fails env ''PRAGMA synchronous=0'' then Inl SqlFailure
      else if exec_fails env ''PRAGMA locking_mode=EXCLUSIVE'' then Inl SqlFailure
      else if exec_fails env ''PRAGMA journal_mode=DELETE'' then Inl SqlFailure
      else Inr ())"

text \<open>
  \<open>func prepareDatabase(filename string) (*sql.DB, error)\<close>, returning the file system
  it leaves behind as well. The error of \<open>os.Remove\<close> is discarded, as in the source
  (line 151).
\<close>

definition prepareDatabase ::
  "sql_env \<Rightarrow> filesystem \<Rightarrow> string \<Rightarrow> filesystem \<times> (sql_error + string)" where
  "prepareDatabase env fs filename =
     (let (fs1, discarded) = os_Remove env fs filename in
      case sql_Open env fs1 filename of
        (fs2, Inl err) \<Rightarrow> (fs2, Inl err)
      | (fs2, Inr db) \<Rightarrow>
          (case optimizeConnection env of
             Inl err \<Rightarrow> (fs2, Inl err)
           | Inr u \<Rightarrow> (fs2, Inr db)))"

text \<open>
  \<open>func setupMBTileTables\<close>: the statements that create the tables and the two unique
  indexes; the second program of \<open>part_000\<close> also inserts the metadata. On an archive
  that has these indexes already the third statement fails; on one whose table
  \<open>tiles\<close> exists without them, every statement succeeds and the rows stay.
\<close>

definition setupMBTileTables :: "variant \<Rightarrow> sql_env \<Rightarrow> sql_error + unit" where
  "setupMBTileTables v env =
     (if exec_fails env
           ''create table if not exists tiles (zoom_level integer, tile_column integer, tile_row integer, tile_data blob);''
      then Inl SqlFailure
      else if exec_fails env ''create table if not exists metadata (name text, value text);''
      then Inl SqlFailure
      else if exec_fails env ''create unique index name on metadata (name);''
      then Inl SqlFailure
      else if exec_fails env
           ''create unique index tile_index on tiles(zoom_level, tile_column, tile_row);''
      then Inl SqlFailure
      else if v = Versioned \<and> exec_fails env ''insert into metadata (name, value) values (?, ?)''
      then Inl SqlFailure
      else Inr ())"

text \<open>
  \<open>func optimizeDatabase(db *sql.DB) error\<close>, the finalize step: \<open>ANALYZE\<close> and
  \<open>VACUUM\<close>. Neither changes the rows of the table.
\<close>

definition optimizeDatabase :: "sql_env \<Rightarrow> sql_error + unit" where
  "optimizeDatabase env =
     (if exec_fails env ''ANALYZE;'' then Inl SqlFailure
      else if exec_fails env ''VACUUM;'' then Inl SqlFailure
      else Inr ())"

text \<open>
  Only the second program of \<open>part_000\<close> tests \<open>len(tiles) == 0\<close> after the enumeration
  (lines 402 to 405); \<open>src/mbutil.go\<close> and the first program do not.
\<close>

definition checks_empty :: "variant \<Rightarrow> bool" where
  "checks_empty v = (v = Versioned)"

text \<open>
  The \<open>addToMBTile\<close> of the program at hand, and the key under which it stores a
  tile.
\<close>

definition write_tile :: "variant \<Rightarrow> Tile \<Rightarrow> store \<Rightarrow> sql_error + store" where
  "write_tile v tile db = (if v = Gosm then addToMBTile_gosm tile db else addToMBTile tile db)"

definition row_key :: "variant \<Rightarrow> Tile \<Rightarrow> tile_key" where
  "row_key v tile =
     (tile_z tile, tile_x tile, if v = Gosm then tile_y tile else flipped_y tile)"

text \<open>
  \<open>fetchTile\<close> builds a new tile from the coordinates of the tile it was given and
  the body of the response.
\<close>

definition fetched :: "Tile \<Rightarrow> nat list \<Rightarrow> Tile" where
  "fetched tile body =
     \<lparr>tile_z = tile_z tile, tile_x = tile_x tile, tile_y = tile_y tile, Content = body\<rparr>"

definition coords :: "Tile \<Rightarrow> int \<times> int \<times> int" where
  "coords tile = (tile_z tile, tile_x tile, tile_y tile)"

text \<open>
  Why the process ended early: \<open>os.Exit(1)\<close> after "Not enough number of tiles", or
  \<open>log.Fatal\<close>.
\<close>

datatype exit_reason = NotEnoughTiles | FatalError

text \<open>
  Where \<open>main\<close> stands: before the store is prepared; in the loop that sends the
  tiles still listed to \<open>inputPipe\<close>; in the loop that receives from \<open>outputPipe\<close>,
  with its counter \<open>i\<close>; returned; or the process has exited.
\<close>

datatype main_pc = Start | Dispatching "Tile list" | Awaiting nat | Done | Exited exit_reason

text \<open>
  Where the one \<open>mbTileWorker\<close> stands: waiting on \<open>tilePipe\<close>, holding a tile it
  has received, or having inserted the tile and about to send it to \<open>outputPipe\<close>.
\<close>

datatype writer_pc = WIdle | WHolding Tile | WWritten Tile

text \<open>
  The state of a run: \<open>main\<close>, the three channels (buffered, in order), the fetch
  workers (each idle or holding the tile it fetches), the writer, and the file
  system. Two fields record the history: the tiles that \<open>main\<close> has received from
  \<open>outputPipe\<close>, in the order of their arrival, and the number of calls of
  \<open>optimizeDatabase\<close>.
\<close>

record pipeline =
  pc :: main_pc
  inputPipe :: "Tile list"
  fetchers :: "Tile option list"
  tilePipe :: "Tile list"
  writer :: writer_pc
  outputPipe :: "Tile list"
  files :: filesystem
  acked :: "Tile list"
  finalized :: nat

text \<open>
  The state when \<open>main\<close> has enumerated the tiles.
\<close>

definition initial :: "filesystem \<Rightarrow> pipeline" where
  "initial fs =
     \<lparr>pc = Start, inputPipe = [], fetchers = [], tilePipe = [], writer = WIdle,
      outputPipe = [], files = fs, acked = [], finalized = 0\<rparr>"

text \<open>
  The workers exist and the process is alive.
\<close>

definition running :: "pipeline \<Rightarrow> bool" where
  "running s = (case pc s of Dispatching rest \<Rightarrow> True | Awaiting i \<Rightarrow> True | _ \<Rightarrow> False)"

text \<open>
  One step of \<open>main\<close> or of a goroutine; channel operations are atomic and the
  goroutines interleave in any order. \<open>main\<close>: the test for an empty tile list (where
  the program has it), \<open>prepareDatabase\<close> and \<open>setupMBTileTables\<close> followed by the
  creation of the channels and the start of 20 \<open>tileFetcher\<close> and one
  \<open>mbTileWorker\<close>, the send loop, the receive loop, and \<open>optimizeDatabase\<close>. Every
  \<open>log.Fatal\<close> ends the process. A fetch worker takes a tile from \<open>inputPipe\<close> and
  sends the tile it fetched to \<open>tilePipe\<close>; the writer takes a tile from
  \<open>tilePipe\<close>, inserts it and sends it to \<open>outputPipe\<close>. A send needs room in the
  channel, whose capacity is \<open>len(tiles)\<close>.
\<close>

inductive step :: "variant \<Rightarrow> sql_env \<Rightarrow> string \<Rightarrow> Tile list \<Rightarrow> pipeline \<Rightarrow> pipeline \<Rightarrow> bool"
  for v :: variant and env :: sql_env and filename :: string and tiles :: "Tile list" where
  no_tiles:
    "pc s = Start \<Longrightarrow> checks_empty v \<Longrightarrow> tiles = [] \<Longrightarrow>
     step v env filename tiles s (s\<lparr>pc := Exited NotEnoughTiles\<rparr>)"
| prepare_ok:
    "pc s = Start \<Longrightarrow> \<not> (checks_empty v \<and> tiles = []) \<Longrightarrow>
     prepareDatabase env (files s) filename = (fs, Inr db) \<Longrightarrow>
     setupMBTileTables v env = Inr () \<Longrightarrow>
     step v env filename tiles s
       (s\<lparr>pc := Dispatching tiles, files := fs,
          inputPipe := [], tilePipe := [], outputPipe := [],
          fetchers := replicate 20 None, writer := WIdle\<rparr>)"
| prepare_err:
    "pc s = Start \<Longrightarrow> \<not> (checks_empty v \<and> tiles = []) \<Longrightarrow>
     prepareDatabase env (files s) filename = (fs, r) \<Longrightarrow>
     r = Inl err \<or> setupMBTileTables v env = Inl err \<Longrightarrow>
     step v env filename tiles s (s\<lparr>pc := Exited FatalError, files := fs\<rparr>)"
| submit:
    "pc s = Dispatching (t # rest) \<Longrightarrow> length (inputPipe s) < length tiles \<Longrightarrow>
     step v env filename tiles s (s\<lparr>pc := Dispatching rest, inputPipe := inputPipe s @ [t]\<rparr>)"
| submitted:
    "pc s = Dispatching [] \<Longrightarrow>
     step v env filename tiles s (s\<lparr>pc := Awaiting 0\<rparr>)"
| ack:
    "pc s = Awaiting i \<Longrightarrow> i < length tiles \<Longrightarrow> outputPipe s = t # q \<Longrightarrow>
     step v env filename tiles s
       (s\<lparr>pc := Awaiting (i + 1), outputPipe := q, acked := acked s @ [t]\<rparr>)"
| finalize_ok:
    "pc s = Awaiting i \<Longrightarrow> \<not> i < length tiles \<Longrightarrow> optimizeDatabase env = Inr () \<Longrightarrow>
     step v env filename tiles s (s\<lparr>pc := Done, finalized := finalized s + 1\<rparr>)"
| finalize_err:
    "pc s = Awaiting i \<Longrightarrow> \<not> i < length tiles \<Longrightarrow> optimizeDatabase env = Inl err \<Longrightarrow>
     step v env filename tiles s (s\<lparr>pc := Exited FatalError, finalized := finalized s + 1\<rparr>)"
| fetch_take:
    "running s \<Longrightarrow> k < length (fetchers s) \<Longrightarrow> fetchers s ! k = None \<Longrightarrow>
     inputPipe s = t # q \<Longrightarrow>
     step v env filename tiles s (s\<lparr>fetchers := (fetchers s)[k := Some t], inputPipe := q\<rparr>)"
| fetch_ok:
    "running s \<Longrightarrow> k < length (fetchers s) \<Longrightarrow> fetchers s ! k = Some t \<Longrightarrow>
     length (tilePipe s) < length tiles \<Longrightarrow>
     step v env filename tiles s
       (s\<lparr>fetchers := (fetchers s)[k := None],
          tilePipe := tilePipe s @ [fetched t body]\<rparr>)"
| fetch_err:
    "running s \<Longrightarrow> k < length (fetchers s) \<Longrightarrow> fetchers s ! k = Some t \<Longrightarrow>
     step v env filename tiles s (s\<lparr>pc := Exited FatalError\<rparr>)"
| write_take:
    "running s \<Longrightarrow> writer s = WIdle \<Longrightarrow> tilePipe s = t # q \<Longrightarrow>
     step v env filename tiles s (s\<lparr>writer := WHolding t, tilePipe := q\<rparr>)"
| write_ok:
    "running s \<Longrightarrow> writer s = WHolding t \<Longrightarrow> files s filename = Some db \<Longrightarrow>
     write_tile v t db = Inr db' \<Longrightarrow>
     step v env filename tiles s (s\<lparr>writer := WWritten t, files := (files s)(filename \<mapsto> db')\<rparr>)"
| write_err:
    "running s \<Longrightarrow> writer s = WHolding t \<Longrightarrow>
     step v env filename tiles s (s\<lparr>pc := Exited FatalError\<rparr>)"
| write_ack:
    "running s \<Longrightarrow> writer s = WWritten t \<Longrightarrow> length (outputPipe s) < length tiles \<Longrightarrow>
     step v env filename tiles s (s\<lparr>writer := WIdle, outputPipe := outputPipe s @ [t]\<rparr>)"

text \<open>
  The states a run can reach from a given file system.
\<close>

inductive reachable ::
  "variant \<Rightarrow> sql_env \<Rightarrow> string \<Rightarrow> Tile list \<Rightarrow> filesystem \<Rightarrow> pipeline \<Rightarrow> bool"
  for v :: variant and env :: sql_env and filename :: string and tiles :: "Tile list"
    and fs :: filesystem where
  at_start: "reachable v env filename tiles fs (initial fs)"
| after_step:
    "reachable v env filename tiles fs s \<Longrightarrow> step v env filename tiles s s' \<Longrightarrow>
     reachable v env filename tiles fs s'"

text \<open>
  The tiles that the fetch workers hold.
\<close>

definition held :: "Tile option list \<Rightarrow> Tile list" where
  "held ws = concat (map (\<lambda>w. case w of None \<Rightarrow> [] | Some t \<Rightarrow> [t]) ws)"

text \<open>
  The tiles \<open>main\<close> has not yet sent.
\<close>

definition unsent :: "Tile list \<Rightarrow> main_pc \<Rightarrow> Tile list" where
  "unsent tiles p = (case p of Start \<Rightarrow> tiles | Dispatching rest \<Rightarrow> rest | _ \<Rightarrow> [])"

text \<open>
  The tile that the writer holds and has not inserted yet, and the tile that it has
  inserted and not yet acknowledged.
\<close>

definition holding :: "writer_pc \<Rightarrow> Tile list" where
  "holding w = (case w of WHolding t \<Rightarrow> [t] | _ \<Rightarrow> [])"

definition written :: "writer_pc \<Rightarrow> Tile list" where
  "written w = (case w of WWritten t \<Rightarrow> [t] | _ \<Rightarrow> [])"

text \<open>
  The tiles that are in the archive: acknowledged, on their way to \<open>main\<close>, or just
  inserted.
\<close>

definition stored :: "pipeline \<Rightarrow> Tile list" where
  "stored s = acked s @ outputPipe s @ written (writer s)"

text \<open>
  The tiles on their way to the writer.
\<close>

definition pending :: "Tile list \<Rightarrow> pipeline \<Rightarrow> Tile list" where
  "pending tiles s =
     unsent tiles (pc s) @ inputPipe s @ held (fetchers s) @ tilePipe s @ holding (writer s)"

text \<open>
  The rows that the archive holds when the run opens it: the rows of the file at
  the output path when the system refuses to remove it, none otherwise.
\<close>

definition surviving :: "sql_env \<Rightarrow> filesystem \<Rightarrow> string \<Rightarrow> store" where
  "surviving env fs filename =
     (case fs filename of
        None \<Rightarrow> Map.empty
      | Some db \<Rightarrow> if remove_fails env then db else Map.empty)"

text \<open>
  The archive \<open>db\<close> consists of the rows \<open>base\<close> and of one row for each tile of
  \<open>ts\<close>, under the key of the tile and with its content; the keys of the tiles are
  distinct and none is a key of \<open>base\<close>.
\<close>

definition holds_rows :: "variant \<Rightarrow> store \<Rightarrow> Tile list \<Rightarrow> store \<Rightarrow> bool" where
  "holds_rows v base ts db =
     (distinct (map (row_key v) ts)
      \<and> dom base \<inter> row_key v ` set ts = {}
      \<and> dom db = dom base \<union> row_key v ` set ts
      \<and> (\<forall>k \<in> dom base. db k = base k)
      \<and> (\<forall>t \<in> set ts. db (row_key v t) = Some (Content t)))"

text \<open>
  The invariant of a run once the store is prepared: every enumerated tile is in
  exactly one place (not yet sent, in a channel, with a worker, or acknowledged),
  with its coordinates unchanged; the archive holds the rows it was opened with
  and one row for every tile that is inserted; and the counter of the receive loop
  is the number of acknowledgments.
\<close>

definition pipeline_inv ::
  "variant \<Rightarrow> sql_env \<Rightarrow> string \<Rightarrow> Tile list \<Rightarrow> filesystem \<Rightarrow> pipeline \<Rightarrow> bool" where
  "pipeline_inv v env filename tiles fs s =
     (case pc s of
        Start \<Rightarrow> s = initial fs
      | Exited r \<Rightarrow> finalized s \<le> 1 \<and> (finalized s = 1 \<longrightarrow> length (acked s) = length tiles)
      | p \<Rightarrow>
          mset (map coords (pending tiles s @ stored s)) = mset (map coords tiles)
        \<and> (\<exists>db. files s filename = Some db
                \<and> holds_rows v (surviving env fs filename) (stored s) db)
        \<and> (case p of Dispatching rest \<Rightarrow> acked s = [] \<and> finalized s = 0
                     | Awaiting i \<Rightarrow> length (acked s) = i \<and> finalized s = 0
                     | _ \<Rightarrow> length (acked s) = length tiles \<and> finalized s = 1))"

text \<open>
  The environment in which nothing fails, and the one in which the system refuses
  to remove a file and nothing else fails.
\<close>

definition env_ok :: sql_env where
  "env_ok = \<lparr>remove_fails = False, open_fails = False, exec_fails = (\<lambda>stmt. False)\<rparr>"

definition env_stuck :: sql_env where
  "env_stuck = \<lparr>remove_fails = True, open_fails = False, exec_fails = (\<lambda>stmt. False)\<rparr>"

text \<open>
  A file system with an archive at the output path and another file.
\<close>

definition old_disk :: filesystem where
  "old_disk = [''out.mbtiles'' \<mapsto> [(1, 0, 0) \<mapsto> [1, 2, 3]], ''other.db'' \<mapsto> [(2, 1, 1) \<mapsto> [4]]]"

text \<open>
  The archive after one row per tile of \<open>ts\<close> has been added to \<open>db\<close>, the content
  of the row of a tile \<open>t\<close> being \<open>body t\<close>.
\<close>

definition rows_added :: "variant \<Rightarrow> (Tile \<Rightarrow> nat list) \<Rightarrow> Tile list \<Rightarrow> store \<Rightarrow> store" where
  "rows_added v body ts db = foldl (\<lambda>d t. d(row_key v t \<mapsto> body t)) db ts"

text \<open>
  The state in which a run ends when nothing fails: \<open>main\<close> has returned, every
  channel is empty and every worker idle; \<open>fs\<close> is the file system that
  \<open>prepareDatabase\<close> has left and \<open>base\<close> the archive it has opened; every tile has
  been fetched with the body \<open>body\<close>, inserted and acknowledged, in the order of the
  list.
\<close>

definition completed ::
  "variant \<Rightarrow> string \<Rightarrow> (Tile \<Rightarrow> nat list) \<Rightarrow> Tile list \<Rightarrow> filesystem \<Rightarrow> store \<Rightarrow> pipeline" where
  "completed v filename body tiles fs base =
     \<lparr>pc = Done, inputPipe = [], fetchers = replicate 20 None, tilePipe = [], writer = WIdle,
      outputPipe = [], files = fs(filename \<mapsto> rows_added v body tiles base),
      acked = map (\<lambda>t. fetched t (body t)) tiles, finalized = 1\<rparr>"

section \<open>Rounding to float64\<close>

lemma two_to_powr: "two_to e = 2 powr (of_int e)"
proof (cases "0 \<le> e")
  case True
  then have h: "(of_int e :: real) = real (nat e)" by simp
  have "2 powr (of_int e :: real) = 2 powr real (nat e)" by (simp only: h)
  also have "\<dots> = 2 ^ nat e" by (simp add: powr_realpow)
  finally show ?thesis using True by (simp add: two_to_def)
next
  case False
  then have h: "(of_int e :: real) = - real (nat (- e))" by simp
  have "2 powr (of_int e :: real) = inverse (2 powr real (nat (- e)))"
    by (simp only: h powr_minus)
  also have "\<dots> = 1 / 2 ^ nat (- e)" by (simp add: powr_realpow inverse_eq_divide)
  finally show ?thesis using False by (simp add: two_to_def)
qed

lemma two_to_pos [simp]: "0 < two_to e"
  by (simp add: two_to_powr)

lemma two_to_nonzero [simp]: "two_to e \<noteq> 0"
  using two_to_pos [of e] by linarith

lemma two_to_nonneg [simp]: "0 \<le> two_to e"
  using two_to_pos [of e] by linarith

lemma two_to_abs [simp]: "\<bar>two_to e\<bar> = two_to e"
  by simp

lemma two_to_add: "two_to (a + b) = two_to a * two_to b"
  by (simp add: two_to_powr powr_add)

lemma two_to_mono: "a \<le> b \<Longrightarrow> two_to a \<le> two_to b"
  by (simp add: two_to_powr)

lemma two_to_strict_mono: "a < b \<Longrightarrow> two_to a < two_to b"
  by (simp add: two_to_powr)

lemma two_to_0 [simp]: "two_to 0 = 1"
  by (simp add: two_to_def)

lemma two_to_nat: "0 \<le> e \<Longrightarrow> two_to e = of_int (2 ^ nat e)"
  by (simp add: two_to_def)

lemma two_to_diff: "two_to a / two_to b = two_to (a - b)"
  using two_to_add [of "a - b" b] by (simp add: field_simps)

lemma expo_unique:
  assumes "two_to e \<le> \<bar>x\<bar>" and "\<bar>x\<bar> < two_to (e + 1)"
  shows "expo x = e"
proof -
  have pos: "0 < \<bar>x\<bar>" using assms(1) two_to_pos [of e] by linarith
  have "of_int e \<le> log 2 \<bar>x\<bar>"
    using assms(1) pos by (simp add: le_log_iff two_to_powr)
  moreover have "log 2 \<bar>x\<bar> < of_int e + 1"
    using assms(2) pos by (simp add: log_less_iff two_to_powr)
  ultimately show ?thesis unfolding expo_def by (rule floor_unique)
qed

lemma expo_bounds:
  assumes "x \<noteq> 0"
  shows "two_to (expo x) \<le> \<bar>x\<bar>" and "\<bar>x\<bar> < two_to (expo x + 1)"
proof -
  have pos: "0 < \<bar>x\<bar>" using assms by simp
  have "of_int (expo x) \<le> log 2 \<bar>x\<bar>" unfolding expo_def by simp
  then show "two_to (expo x) \<le> \<bar>x\<bar>" using pos by (simp add: le_log_iff two_to_powr)
  have "log 2 \<bar>x\<bar> < of_int (expo x) + 1" unfolding expo_def by linarith
  then show "\<bar>x\<bar> < two_to (expo x + 1)" using pos by (simp add: log_less_iff two_to_powr)
qed

lemma expo_minus [simp]: "expo (- x) = expo x"
  by (simp add: expo_def)

lemma expo_mono: "0 < x \<Longrightarrow> x \<le> y \<Longrightarrow> expo x \<le> expo y"
  unfolding expo_def by (intro floor_mono) simp

lemma rne_of_int [simp]: "rne (of_int n) = n"
  by (simp add: rne_def)

lemma rne_bounds: "\<lfloor>r\<rfloor> \<le> rne r" "rne r \<le> \<lfloor>r\<rfloor> + 1"
  by (simp_all add: rne_def Let_def)

lemma rne_mono: "r \<le> s \<Longrightarrow> rne r \<le> rne s"
proof -
  assume rs: "r \<le> s"
  show ?thesis
  proof (cases "\<lfloor>r\<rfloor> = \<lfloor>s\<rfloor>")
    case True
    have "r - of_int \<lfloor>r\<rfloor> \<le> s - of_int \<lfloor>s\<rfloor>" using rs True by simp
    then show ?thesis using True by (auto simp: rne_def Let_def)
  next
    case False
    then have "\<lfloor>r\<rfloor> < \<lfloor>s\<rfloor>" using floor_mono [OF rs] by linarith
    then show ?thesis using rne_bounds(2) [of r] rne_bounds(1) [of s] by linarith
  qed
qed

lemma rne_minus: "rne (- r) = - rne r"
proof (cases "r = of_int \<lfloor>r\<rfloor>")
  case True
  then obtain n where "r = of_int n" ..
  then have "- r = of_int (- n)" by simp
  then show ?thesis using \<open>r = of_int n\<close> by (metis rne_of_int)
next
  case False
  then have c: "\<lceil>r\<rceil> = \<lfloor>r\<rfloor> + 1" by (simp add: ceiling_altdef)
  have f: "\<lfloor>- r\<rfloor> = - \<lfloor>r\<rfloor> - 1" using c by (simp add: floor_minus)
  have frac: "of_int \<lfloor>r\<rfloor> < r" "r < of_int \<lfloor>r\<rfloor> + 1" using False by linarith+
  show ?thesis
    unfolding rne_def Let_def f using frac by (auto simp: algebra_simps)
qed


lemma ulp_exp_minus [simp]: "ulp_exp (- x) = ulp_exp x"
  by (simp add: ulp_exp_def)

lemma round_real_0 [simp]: "round_real 0 = 0"
  by (simp add: round_real_def)

lemma round_real_minus: "round_real (- x) = - round_real x"
  by (simp add: round_real_def rne_minus)

lemma round_real_nonneg: "0 \<le> x \<Longrightarrow> 0 \<le> round_real x"
proof -
  assume x: "0 \<le> x"
  have "0 \<le> x / two_to (ulp_exp x)" using x by (intro divide_nonneg_nonneg) simp_all
  then have "0 \<le> \<lfloor>x / two_to (ulp_exp x)\<rfloor>" by simp
  then have "0 \<le> rne (x / two_to (ulp_exp x))"
    using rne_bounds(1) [of "x / two_to (ulp_exp x)"] by linarith
  then show ?thesis by (simp add: round_real_def)
qed

lemma round_real_nonpos: "x \<le> 0 \<Longrightarrow> round_real x \<le> 0"
  using round_real_nonneg [of "- x"] by (simp add: round_real_minus)

lemma expo_less:
  assumes "x \<noteq> 0" and "\<bar>x\<bar> < two_to k"
  shows "expo x < k"
proof (rule ccontr)
  assume "\<not> expo x < k"
  then have "two_to k \<le> two_to (expo x)" by (intro two_to_mono) simp
  then show False using expo_bounds(1) [OF assms(1)] assms(2) by linarith
qed

lemma expo_ge:
  assumes "two_to k \<le> \<bar>x\<bar>"
  shows "k \<le> expo x"
proof (rule ccontr)
  assume "\<not> k \<le> expo x"
  then have "two_to (expo x + 1) \<le> two_to k" by (intro two_to_mono) simp
  moreover have "x \<noteq> 0"
  proof
    assume "x = 0"
    then have "two_to k \<le> 0" using assms by simp
    then show False using two_to_pos [of k] by linarith
  qed
  ultimately show False using expo_bounds(2) [of x] assms by linarith
qed

lemma round_real_exact:
  assumes "x = of_int m * two_to e" and "\<bar>m\<bar> < 2 ^ 53" and "- 1074 \<le> e"
  shows "round_real x = x"
proof (cases "x = 0")
  case True
  then show ?thesis by simp
next
  case False
  have "\<bar>x\<bar> = of_int \<bar>m\<bar> * two_to e" by (simp add: assms(1) abs_mult)
  also have "\<dots> < of_int (2 ^ 53) * two_to e"
    using assms(2) by (intro mult_strict_right_mono) simp_all
  also have "\<dots> = two_to (53 + e)" by (simp add: two_to_add two_to_nat)
  finally have "expo x < 53 + e" using False by (intro expo_less)
  then have le: "ulp_exp x \<le> e" using assms(3) by (simp add: ulp_exp_def)
  define d where "d = e - ulp_exp x"
  have d: "0 \<le> d" using le by (simp add: d_def)
  have "x / two_to (ulp_exp x) = of_int m * (two_to e / two_to (ulp_exp x))"
    by (simp add: assms(1))
  also have "\<dots> = of_int m * two_to d" by (simp add: two_to_diff d_def)
  also have "\<dots> = of_int (m * 2 ^ nat d)" using d by (simp add: two_to_nat)
  finally have q: "x / two_to (ulp_exp x) = of_int (m * 2 ^ nat d)" .
  have r: "rne (x / two_to (ulp_exp x)) = m * 2 ^ nat d" unfolding q by (rule rne_of_int)
  have "round_real x = of_int (rne (x / two_to (ulp_exp x))) * two_to (ulp_exp x)"
    using False by (simp add: round_real_def)
  also have "\<dots> = of_int (m * 2 ^ nat d) * two_to (ulp_exp x)" by (simp only: r)
  also have "\<dots> = (x / two_to (ulp_exp x)) * two_to (ulp_exp x)" by (simp only: q)
  also have "\<dots> = x" by simp
  finally show ?thesis .
qed

lemma round_real_representable: "representable x \<Longrightarrow> round_real x = x"
  unfolding representable_def using round_real_exact by blast

lemma round_real_two_to: "- 1074 \<le> k \<Longrightarrow> round_real (two_to k) = two_to k"
  by (rule round_real_exact [of _ 1 k]) simp_all

lemma representableI:
  "x = of_int m * two_to e \<Longrightarrow> \<bar>m\<bar> < 2 ^ 53 \<Longrightarrow> - 1074 \<le> e \<Longrightarrow> e \<le> 971 \<Longrightarrow> representable x"
  unfolding representable_def by blast

lemma representable_two_to:
  assumes "- 1074 \<le> k" and "k \<le> 1023"
  shows "representable (two_to k)"
proof (cases "k \<le> 971")
  case True
  show ?thesis by (rule representableI [of _ 1 k]) (use assms True in simp_all)
next
  case False
  then have d: "0 \<le> k - 971" "nat (k - 971) \<le> 52" using assms by simp_all
  have "two_to k = two_to ((k - 971) + 971)" by simp
  also have "\<dots> = of_int (2 ^ nat (k - 971)) * two_to 971"
    using d(1) by (simp only: two_to_add two_to_nat)
  finally have eq: "two_to k = of_int (2 ^ nat (k - 971)) * two_to 971" .
  have "(2::int) ^ nat (k - 971) \<le> 2 ^ 52" using d(2) by (intro power_increasing) simp_all
  then have "\<bar>(2::int) ^ nat (k - 971)\<bar> < 2 ^ 53" by simp
  then show ?thesis using eq by (intro representableI [of _ "2 ^ nat (k - 971)" 971]) simp_all
qed

lemma two_to_int: "two_to (int n) = 2 ^ n"
  by (simp add: two_to_def)

lemma representable_pow2: "n \<le> 1023 \<Longrightarrow> representable (2 ^ n)"
  using representable_two_to [of "int n"] by (simp add: two_to_int)

lemma representable_of_int: "\<bar>n\<bar> < 2 ^ 53 \<Longrightarrow> representable (of_int n)"
  by (rule representableI [of _ n 0]) simp_all

lemma representable_dyadic:
  "\<bar>m\<bar> < 2 ^ 53 \<Longrightarrow> k \<le> 1074 \<Longrightarrow> representable (of_int m / 2 ^ k)"
  by (rule representableI [of _ m "- int k"]) (simp_all add: two_to_def)

lemma representable_scaled:
  "\<bar>m\<bar> < 2 ^ 53 \<Longrightarrow> k \<le> 971 \<Longrightarrow> representable (of_int m * 2 ^ k)"
  by (rule representableI [of _ m "int k"]) (simp_all add: two_to_def)

lemma representable_minus: "representable x \<Longrightarrow> representable (- x)"
proof -
  assume "representable x"
  then obtain m e where "x = of_int m * two_to e" "\<bar>m\<bar> < 2 ^ 53" "- 1074 \<le> e" "e \<le> 971"
    unfolding representable_def by blast
  then show ?thesis by (intro representableI [of _ "- m" e]) simp_all
qed

lemma representable_less:
  assumes "representable x"
  shows "\<bar>x\<bar> < two_to 1024"
proof -
  from assms obtain m e where x: "x = of_int m * two_to e" and m: "\<bar>m\<bar> < 2 ^ 53"
    and e: "- 1074 \<le> e" "e \<le> 971"
    unfolding representable_def by blast
  have "\<bar>x\<bar> = of_int \<bar>m\<bar> * two_to e" by (simp add: x abs_mult)
  also have "\<dots> < of_int (2 ^ 53) * two_to e"
    using m by (intro mult_strict_right_mono) simp_all
  also have "\<dots> = two_to (53 + e)" by (simp add: two_to_add two_to_nat)
  also have "\<dots> \<le> two_to 1024" using e(2) by (intro two_to_mono) simp
  finally show ?thesis .
qed

lemma round_real_upper:
  assumes "0 < x"
  shows "round_real x \<le> two_to (max (expo x) (- 1022) + 1)"
proof -
  let ?E = "max (expo x) (- 1022)"
  let ?u = "two_to (?E - 52)"
  have ue: "ulp_exp x = ?E - 52" by (simp add: ulp_exp_def)
  have "x < two_to (expo x + 1)" using expo_bounds(2) [of x] assms by simp
  also have "\<dots> \<le> two_to (?E + 1)" by (intro two_to_mono) simp
  finally have "x / ?u \<le> two_to (?E + 1) / ?u" by (intro divide_right_mono) simp_all
  also have "\<dots> = of_int (2 ^ 53)" by (simp add: two_to_diff two_to_nat)
  finally have "rne (x / ?u) \<le> rne (of_int (2 ^ 53))" by (rule rne_mono)
  then have "rne (x / ?u) \<le> 2 ^ 53" by (simp only: rne_of_int)
  then have "of_int (rne (x / ?u)) \<le> (of_int (2 ^ 53) :: real)" by (simp only: of_int_le_iff)
  then have "of_int (rne (x / ?u)) * ?u \<le> of_int (2 ^ 53) * ?u"
    by (intro mult_right_mono) simp_all
  also have "of_int (2 ^ 53) * ?u = two_to (53 + (?E - 52))"
    by (simp only: two_to_add) (simp add: two_to_nat)
  also have "\<dots> = two_to (?E + 1)" by (simp add: add.commute)
  finally show ?thesis using assms by (simp add: round_real_def ue)
qed

lemma round_real_lower:
  assumes "0 < x" and "- 1022 \<le> expo x"
  shows "two_to (expo x) \<le> round_real x"
proof -
  let ?u = "two_to (expo x - 52)"
  have ue: "ulp_exp x = expo x - 52" using assms(2) by (simp add: ulp_exp_def)
  have "two_to (expo x) \<le> x" using expo_bounds(1) [of x] assms by simp
  then have "two_to (expo x) / ?u \<le> x / ?u" by (intro divide_right_mono) simp_all
  moreover have "two_to (expo x) / ?u = of_int (2 ^ 52)" by (simp add: two_to_diff two_to_nat)
  ultimately have "rne (of_int (2 ^ 52)) \<le> rne (x / ?u)" by (intro rne_mono) simp
  then have "2 ^ 52 \<le> rne (x / ?u)" by (simp only: rne_of_int)
  then have "(of_int (2 ^ 52) :: real) \<le> of_int (rne (x / ?u))" by (simp only: of_int_le_iff)
  then have B: "of_int (2 ^ 52) * ?u \<le> of_int (rne (x / ?u)) * ?u"
    by (intro mult_right_mono) simp_all
  have "of_int (2 ^ 52) * ?u = two_to (52 + (expo x - 52))"
    by (simp only: two_to_add) (simp add: two_to_nat)
  then have A: "two_to (expo x) = of_int (2 ^ 52) * ?u" by simp
  have C: "round_real x = of_int (rne (x / ?u)) * ?u"
    using assms(1) by (simp add: round_real_def ue)
  show ?thesis unfolding C using A B by (simp only:)
qed

lemma round_real_mono_pos:
  assumes "0 < x" and "x \<le> y"
  shows "round_real x \<le> round_real y"
proof -
  have y: "0 < y" using assms by simp
  let ?Ex = "max (expo x) (- 1022)" and ?Ey = "max (expo y) (- 1022)"
  have le: "?Ex \<le> ?Ey" using expo_mono [OF assms] by simp
  show ?thesis
  proof (cases "?Ex = ?Ey")
    case True
    then have u: "ulp_exp x = ulp_exp y" by (simp add: ulp_exp_def)
    have "x / two_to (ulp_exp y) \<le> y / two_to (ulp_exp y)"
      using assms(2) by (intro divide_right_mono) simp_all
    then have "rne (x / two_to (ulp_exp y)) \<le> rne (y / two_to (ulp_exp y))" by (rule rne_mono)
    then have "of_int (rne (x / two_to (ulp_exp y))) * two_to (ulp_exp y)
               \<le> of_int (rne (y / two_to (ulp_exp y))) * two_to (ulp_exp y)"
      by (intro mult_right_mono) simp_all
    then show ?thesis using assms(1) y by (simp add: round_real_def u)
  next
    case False
    then have lt: "?Ex < ?Ey" using le by linarith
    have "- 1022 < expo y"
    proof (rule ccontr)
      assume "\<not> - 1022 < expo y"
      then have "?Ey = - 1022" by simp
      moreover have "- 1022 \<le> ?Ex" by (rule max.cobounded2)
      ultimately show False using lt by linarith
    qed
    then have ey: "?Ey = expo y" "- 1022 \<le> expo y" by simp_all
    have "round_real x \<le> two_to (?Ex + 1)" using assms(1) by (rule round_real_upper)
    also have "\<dots> \<le> two_to (expo y)"
    proof (rule two_to_mono)
      show "?Ex + 1 \<le> expo y" using lt ey(1) by linarith
    qed
    also have "\<dots> \<le> round_real y" using y ey(2) by (rule round_real_lower)
    finally show ?thesis .
  qed
qed

lemma round_real_mono: "x \<le> y \<Longrightarrow> round_real x \<le> round_real y"
proof -
  assume xy: "x \<le> y"
  consider "0 < x" | "x \<le> 0" "0 \<le> y" | "y < 0" by linarith
  then show ?thesis
  proof cases
    case 1
    then show ?thesis using xy by (rule round_real_mono_pos)
  next
    case 2
    then show ?thesis using round_real_nonpos [of x] round_real_nonneg [of y] by linarith
  next
    case 3
    then have "0 < - y" "- y \<le> - x" using xy by simp_all
    then have "round_real (- y) \<le> round_real (- x)" by (rule round_real_mono_pos)
    then show ?thesis by (simp add: round_real_minus)
  qed
qed

lemma round_real_abs_le:
  assumes "\<bar>x\<bar> \<le> two_to k" and "- 1074 \<le> k"
  shows "\<bar>round_real x\<bar> \<le> two_to k"
proof -
  have "round_real x \<le> round_real (two_to k)" using assms(1) by (intro round_real_mono) simp
  moreover have "round_real (- two_to k) \<le> round_real x"
    using assms(1) by (intro round_real_mono) simp
  ultimately show ?thesis
    by (simp add: round_real_minus round_real_two_to [OF assms(2)] abs_le_iff)
qed

lemma to_f64_finite:
  assumes "\<bar>x\<bar> \<le> two_to k" and "k \<le> 1023"
  shows "to_f64 x = Finite (round_real x)"
proof -
  have "\<bar>x\<bar> \<le> two_to 1023" using assms two_to_mono [of k 1023] by linarith
  then have "\<bar>round_real x\<bar> \<le> two_to 1023" by (intro round_real_abs_le) simp_all
  moreover have "two_to 1023 < two_to 1024" by (intro two_to_strict_mono) simp
  ultimately show ?thesis by (simp add: to_f64_def Let_def abs_le_iff)
qed

lemma to_f64_exact:
  assumes "representable x"
  shows "to_f64 x = Finite x"
proof -
  have "\<bar>x\<bar> < two_to 1024" using assms by (rule representable_less)
  then show ?thesis
    by (simp add: to_f64_def Let_def round_real_representable [OF assms] abs_less_iff)
qed

lemma to_f64_pow2: "n \<le> 1023 \<Longrightarrow> to_f64 (2 ^ n) = Finite (2 ^ n)"
  by (intro to_f64_exact representable_pow2)

lemma to_f64_minus: "to_f64 (- x) = fneg (to_f64 x)"
proof -
  have p: "0 < two_to 1024" by simp
  consider "two_to 1024 \<le> round_real x" | "round_real x \<le> - two_to 1024"
    | "- two_to 1024 < round_real x" "round_real x < two_to 1024" by linarith
  then show ?thesis
  proof cases
    case 1
    then have "\<not> two_to 1024 \<le> - round_real x" using p by linarith
    then show ?thesis using 1 by (simp add: to_f64_def Let_def round_real_minus)
  next
    case 2
    then have "\<not> two_to 1024 \<le> round_real x" using p by linarith
    then show ?thesis using 2 by (simp add: to_f64_def Let_def round_real_minus)
  next
    case 3
    then have "\<not> two_to 1024 \<le> round_real x" "\<not> round_real x \<le> - two_to 1024"
      "\<not> two_to 1024 \<le> - round_real x" "\<not> round_real x \<ge> two_to 1024" by linarith+
    then show ?thesis by (simp add: to_f64_def Let_def round_real_minus)
  qed
qed

lemma round_real_eval:
  assumes "two_to e \<le> \<bar>x\<bar>" and "\<bar>x\<bar> < two_to (e + 1)" and "- 1022 \<le> e"
  shows "round_real x = of_int (rne (x / two_to (e - 52))) * two_to (e - 52)"
proof -
  have e: "expo x = e" using assms(1,2) by (rule expo_unique)
  have "x \<noteq> 0"
  proof
    assume "x = 0"
    then have "two_to e \<le> 0" using assms(1) by simp
    then show False using two_to_pos [of e] by linarith
  qed
  then show ?thesis using assms(3) by (simp add: round_real_def ulp_exp_def e)
qed

lemma to_f64_eval:
  assumes "two_to e \<le> \<bar>x\<bar>" and "\<bar>x\<bar> < two_to (e + 1)" and "- 1022 \<le> e" and "e \<le> 1022"
  shows "to_f64 x = Finite (of_int (rne (x / two_to (e - 52))) * two_to (e - 52))"
proof -
  have b: "\<bar>x\<bar> \<le> two_to (e + 1)" using assms(2) by simp
  have k: "e + 1 \<le> 1023" using assms(4) by linarith
  have "to_f64 x = Finite (round_real x)" using b k by (rule to_f64_finite)
  then show ?thesis by (simp only: round_real_eval [OF assms(1,2,3)])
qed

lemma betweenI: "v = Finite x \<Longrightarrow> lo \<le> x \<Longrightarrow> x \<le> hi \<Longrightarrow> between lo hi v"
  by (simp add: between_def)

lemma betweenE:
  assumes "between lo hi v"
  obtains x where "v = Finite x" and "lo \<le> x" and "x \<le> hi"
  using assms by (cases v) (simp_all add: between_def)

lemma between_Finite [simp]: "between lo hi (Finite x) \<longleftrightarrow> lo \<le> x \<and> x \<le> hi"
  by (simp add: between_def)

lemma between_weaken: "between a b v \<Longrightarrow> lo \<le> a \<Longrightarrow> b \<le> hi \<Longrightarrow> between lo hi v"
  by (cases v) (simp_all add: between_def)

lemma between_to_f64:
  assumes "lo \<le> x" and "x \<le> hi" and "representable lo" and "representable hi"
  shows "between lo hi (to_f64 x)"
proof -
  have l: "lo \<le> round_real x"
    using round_real_mono [OF assms(1)] round_real_representable [OF assms(3)] by simp
  have h: "round_real x \<le> hi"
    using round_real_mono [OF assms(2)] round_real_representable [OF assms(4)] by simp
  have "- two_to 1024 < lo" "hi < two_to 1024"
    using representable_less [OF assms(3)] representable_less [OF assms(4)] by (simp_all add: abs_less_iff)
  then have "to_f64 x = Finite (round_real x)" using l h by (simp add: to_f64_def Let_def)
  then show ?thesis using l h by simp
qed

lemma fadd_between:
  assumes "between a b u" and "between c d v"
    and "lo \<le> a + c" and "b + d \<le> hi" and "representable lo" and "representable hi"
  shows "between lo hi (fadd u v)"
proof -
  from assms(1) obtain x where x: "u = Finite x" "a \<le> x" "x \<le> b" by (rule betweenE)
  from assms(2) obtain y where y: "v = Finite y" "c \<le> y" "y \<le> d" by (rule betweenE)
  have "between lo hi (to_f64 (x + y))"
    using x y assms(3,4) by (intro between_to_f64 assms(5,6)) linarith+
  then show ?thesis by (simp add: x y)
qed

lemma fmul_between:
  assumes "between a b u" and "between c d v" and "0 \<le> a" and "0 \<le> c"
    and "lo \<le> a * c" and "b * d \<le> hi" and "representable lo" and "representable hi"
  shows "between lo hi (fmul u v)"
proof -
  from assms(1) obtain x where x: "u = Finite x" "a \<le> x" "x \<le> b" by (rule betweenE)
  from assms(2) obtain y where y: "v = Finite y" "c \<le> y" "y \<le> d" by (rule betweenE)
  have "a * c \<le> x * y" using x y assms(3,4) by (intro mult_mono) simp_all
  moreover have "x * y \<le> b * d" using x y assms(3,4) by (intro mult_mono) simp_all
  ultimately have "between lo hi (to_f64 (x * y))"
    using assms(5,6) by (intro between_to_f64 assms(7,8)) linarith+
  then show ?thesis by (simp add: x y)
qed

lemma fdiv_between:
  assumes "between a b u" and "between c d v" and "0 \<le> a" and "0 < c"
    and "lo \<le> a / d" and "b / c \<le> hi" and "representable lo" and "representable hi"
  shows "between lo hi (fdiv u v)"
proof -
  from assms(1) obtain x where x: "u = Finite x" "a \<le> x" "x \<le> b" by (rule betweenE)
  from assms(2) obtain y where y: "v = Finite y" "c \<le> y" "y \<le> d" by (rule betweenE)
  have ypos: "0 < y" "0 < d" using y assms(4) by simp_all
  have "a / d \<le> x / y" using x y assms(3,4) ypos by (intro frac_le) simp_all
  moreover have "x / y \<le> b / c" using x y assms(3,4) ypos by (intro frac_le) simp_all
  ultimately have "between lo hi (to_f64 (x / y))"
    using assms(5,6) by (intro between_to_f64 assms(7,8)) linarith+
  then show ?thesis using ypos by (simp add: x y)
qed

lemma fneg_between: "between a b u \<Longrightarrow> between (- b) (- a) (fneg u)"
  by (cases u) (simp_all add: between_def)

lemma fmul_fneg_right: "fmul a (fneg b) = fneg (fmul a b)"
  by (cases a; cases b) (simp_all add: to_f64_minus [symmetric] inf_of_sign_def)

lemma fmul_fneg_left: "fmul (fneg a) b = fneg (fmul a b)"
  by (cases a; cases b) (simp_all add: to_f64_minus [symmetric] inf_of_sign_def)

lemma fsub_between:
  assumes "between a b u" and "between c d v"
    and "lo \<le> a - d" and "b - c \<le> hi" and "representable lo" and "representable hi"
  shows "between lo hi (fsub u v)"
  unfolding fsub_def
  using assms(3,4) by (intro fadd_between [OF assms(1) fneg_between [OF assms(2)]] assms(5,6)) simp_all

lemma to_f64_not_NaN [simp]: "to_f64 x \<noteq> NaN"
  by (simp add: to_f64_def Let_def)

section \<open>Conversions between int and float64\<close>

lemma go_int_range: "MinInt64 \<le> go_int a" "go_int a < 2 ^ 63"
  by (cases a; simp add: Let_def MinInt64_def)+

lemma tile_index_range: "MinInt64 \<le> tile_index px" "tile_index px < 2 ^ 63"
  unfolding tile_index_def by (rule go_int_range)+

lemma float64_of_int_exact: "\<bar>k\<bar> < 2 ^ 53 \<Longrightarrow> float64_of_int k = Finite (of_int k)"
  unfolding float64_of_int_def by (intro to_f64_exact representable_of_int)

lemma float64_of_int_finite:
  assumes "\<bar>k\<bar> \<le> 2 ^ 63"
  shows "float64_of_int k = Finite (round_real (of_int k))"
proof -
  have "\<bar>of_int k :: real\<bar> = of_int \<bar>k\<bar>" by simp
  also have "\<dots> \<le> of_int (2 ^ 63)" using assms by (simp only: of_int_le_iff)
  also have "\<dots> = two_to 63" by (simp add: two_to_def)
  finally show ?thesis unfolding float64_of_int_def by (rule to_f64_finite) simp
qed

lemma two_power_zoom:
  assumes "0 \<le> zoom"
  shows "math_Pow2 (float64_of_int zoom) = (if zoom < 1024 then Finite (2 ^ nat zoom) else PosInf)"
proof (cases "zoom < 1024")
  case True
  then have "\<bar>zoom\<bar> < 2 ^ 53" using assms by simp
  then have f: "float64_of_int zoom = Finite (of_int zoom)" by (rule float64_of_int_exact)
  have "two_to zoom = 2 ^ nat zoom" using assms by (simp add: two_to_def)
  then show ?thesis using True assms by (simp add: f)
next
  case False
  have "round_real 1024 \<le> round_real (of_int zoom)" using False by (intro round_real_mono) simp
  moreover have "round_real 1024 = 1024"
    using round_real_representable [OF representable_of_int [of 1024]] by simp
  ultimately have r: "1024 \<le> round_real (of_int zoom)" by simp
  have p: "0 < two_to 1024" by simp
  have "float64_of_int zoom = PosInf \<or> float64_of_int zoom = Finite (round_real (of_int zoom))"
    using r p unfolding float64_of_int_def to_f64_def Let_def by (simp; linarith)
  then show ?thesis using False r by auto
qed

lemma in_grid_range:
  assumes "in_grid (math_Pow2 (float64_of_int zoom)) k" and "0 \<le> zoom" and "k < 2 ^ 63"
  shows "0 \<le> k \<and> k < 2 ^ nat zoom"
proof -
  have k0: "0 \<le> k" using assms(1) by (simp add: in_grid_def)
  show ?thesis
  proof (cases "zoom < 63")
    case True
    then have t: "math_Pow2 (float64_of_int zoom) = Finite (2 ^ nat zoom)"
      using assms(2) by (simp add: two_power_zoom)
    have f: "float64_of_int k = Finite (round_real (of_int k))"
      using k0 assms(3) by (intro float64_of_int_finite) simp
    have lt: "round_real (of_int k) < 2 ^ nat zoom"
      using assms(1) unfolding in_grid_def t f fge_def by auto
    have "k < 2 ^ nat zoom"
    proof (rule ccontr)
      assume "\<not> k < 2 ^ nat zoom"
      then have "(2::int) ^ nat zoom \<le> k" by simp
      then have "(of_int (2 ^ nat zoom) :: real) \<le> of_int k" by (simp only: of_int_le_iff)
      then have "two_to zoom \<le> of_int k" using assms(2) by (simp add: two_to_def)
      then have "round_real (two_to zoom) \<le> round_real (of_int k)" by (rule round_real_mono)
      then have "two_to zoom \<le> round_real (of_int k)"
        using assms(2) by (simp add: round_real_two_to)
      then show False using lt assms(2) by (simp add: two_to_def)
    qed
    then show ?thesis using k0 by simp
  next
    case False
    then have "63 \<le> nat zoom" by simp
    then have "(2::int) ^ 63 \<le> 2 ^ nat zoom" by (intro power_increasing) simp_all
    then show ?thesis using k0 assms(3) by linarith
  qed
qed

lemma in_grid_iff:
  assumes "0 \<le> zoom" and "zoom \<le> 53"
  shows "in_grid (math_Pow2 (float64_of_int zoom)) k \<longleftrightarrow> 0 \<le> k \<and> k < 2 ^ nat zoom"
proof
  assume g: "in_grid (math_Pow2 (float64_of_int zoom)) k"
  then have k0: "0 \<le> k" by (simp add: in_grid_def)
  show "0 \<le> k \<and> k < 2 ^ nat zoom"
  proof (cases "k < 2 ^ 63")
    case True
    with g assms(1) show ?thesis by (intro in_grid_range)
  next
    case False
    have t: "math_Pow2 (float64_of_int zoom) = Finite (2 ^ nat zoom)"
      using assms by (simp add: two_power_zoom)
    have "(2::int) ^ 63 \<le> k" using False by simp
    then have "(of_int (2 ^ 63) :: real) \<le> of_int k" by (simp only: of_int_le_iff)
    then have "round_real (of_int (2 ^ 63)) \<le> round_real (of_int k)"
      by (rule round_real_mono)
    moreover have "round_real (of_int (2 ^ 63)) = two_to 63"
      using round_real_two_to [of 63] by (simp add: two_to_def)
    ultimately have r: "two_to 63 \<le> round_real (of_int k)" by simp
    have "(2::real) ^ nat zoom \<le> 2 ^ 63" using assms by (intro power_increasing) simp_all
    then have r': "2 ^ nat zoom \<le> round_real (of_int k)" using r by (simp add: two_to_def)
    have p: "0 < two_to 1024" by simp
    have "float64_of_int k = PosInf \<or> float64_of_int k = Finite (round_real (of_int k))"
      using r p unfolding float64_of_int_def to_f64_def Let_def
      by (simp add: two_to_def; linarith)
    then have "fge (float64_of_int k) (Finite (2 ^ nat zoom))"
      using r' by (auto simp: fge_def)
    then show ?thesis using g by (simp add: in_grid_def t)
  qed
next
  assume k: "0 \<le> k \<and> k < 2 ^ nat zoom"
  have t: "math_Pow2 (float64_of_int zoom) = Finite (2 ^ nat zoom)"
    using assms by (simp add: two_power_zoom)
  have "(2::int) ^ nat zoom \<le> 2 ^ 53" using assms by (intro power_increasing) simp_all
  then have "\<bar>k\<bar> < 2 ^ 53" using k by simp
  then have f: "float64_of_int k = Finite (of_int k)" by (rule float64_of_int_exact)
  have "(of_int k :: real) < of_int (2 ^ nat zoom)" using k by (simp only: of_int_less_iff)
  then show "in_grid (math_Pow2 (float64_of_int zoom)) k"
    using k by (simp add: in_grid_def t f fge_def)
qed

section \<open>The loops of TileList\<close>

lemma y_loop_eq:
  "y_loop zoom t i j e acc = acc @ column_tiles zoom t j e i"
proof (induction zoom t i j e acc rule: y_loop.induct)
  case (1 zoom t i j e acc)
  show ?case
  proof (cases "j \<le> e")
    case True
    then have u: "[j..e] = j # [j + 1..e]" by (rule upto_rec1)
    show ?thesis
    proof (cases "j < 0 \<or> fge (float64_of_int j) t")
      case skip: True
      have "y_loop zoom t i j e acc = y_loop zoom t i (j + 1) e acc"
        using True skip by (subst y_loop.simps) simp
      also have "\<dots> = acc @ column_tiles zoom t (j + 1) e i"
        using "1.IH"(1) True skip by simp
      also have "\<dots> = acc @ column_tiles zoom t j e i"
        using skip by (simp add: column_tiles_def u in_grid_def)
      finally show ?thesis .
    next
      case keep: False
      have "y_loop zoom t i j e acc = y_loop zoom t i (j + 1) e (acc @ [mkTile zoom i j])"
        using True keep by (subst y_loop.simps) simp
      also have "\<dots> = (acc @ [mkTile zoom i j]) @ column_tiles zoom t (j + 1) e i"
        using "1.IH"(2) True keep by simp
      also have "\<dots> = acc @ column_tiles zoom t j e i"
        using keep by (simp add: column_tiles_def u in_grid_def)
      finally show ?thesis .
    qed
  next
    case False
    then show ?thesis by (subst y_loop.simps) (simp add: column_tiles_def)
  qed
qed

lemma x_loop_eq:
  "x_loop zoom t px0 px1 i e acc =
     acc @ grid_tiles zoom t i e (tile_index (snd px0)) (tile_index (snd px1))"
proof (induction zoom t px0 px1 i e acc rule: x_loop.induct)
  case (1 zoom t px0 px1 i e acc)
  show ?case
  proof (cases "i \<le> e")
    case True
    then have u: "[i..e] = i # [i + 1..e]" by (rule upto_rec1)
    show ?thesis
    proof (cases "i < 0 \<or> fge (float64_of_int i) t")
      case skip: True
      have "x_loop zoom t px0 px1 i e acc = x_loop zoom t px0 px1 (i + 1) e acc"
        using True skip by (subst x_loop.simps) simp
      then show ?thesis
        using "1.IH"(1) True skip by (simp add: grid_tiles_def u in_grid_def)
    next
      case keep: False
      have "x_loop zoom t px0 px1 i e acc =
            x_loop zoom t px0 px1 (i + 1) e
              (y_loop zoom t i (tile_index (snd px0)) (tile_index (snd px1)) acc)"
        using True keep by (subst x_loop.simps) (simp add: Let_def tile_index_def)
      then show ?thesis
        using "1.IH"(2) True keep
        by (simp add: grid_tiles_def u in_grid_def y_loop_eq tile_index_def)
    qed
  next
    case False
    then show ?thesis by (subst x_loop.simps) (simp add: grid_tiles_def)
  qed
qed

lemma scale_loop_fields:
  "i \<le> m + 1 \<Longrightarrow>
   Bc (scale_loop i m c p) = Bc p @ map (\<lambda>v. fdiv v (Finite 360)) (geom_tab c (nat (m + 1 - i))) \<and>
   Cc (scale_loop i m c p) = Cc p @ map (\<lambda>v. fdiv v (to_f64 (2 * pi))) (geom_tab c (nat (m + 1 - i))) \<and>
   Zc (scale_loop i m c p) = Zc p @ map (\<lambda>v. (fdiv v (Finite 2), fdiv v (Finite 2))) (geom_tab c (nat (m + 1 - i))) \<and>
   Ac (scale_loop i m c p) = Ac p @ geom_tab c (nat (m + 1 - i)) \<and>
   levels (scale_loop i m c p) = levels p \<and>
   xmin (scale_loop i m c p) = xmin p \<and> ymin (scale_loop i m c p) = ymin p \<and>
   xmax (scale_loop i m c p) = xmax p \<and> ymax (scale_loop i m c p) = ymax p"
proof (induction i m c p rule: scale_loop.induct)
  case (1 i m c p)
  show ?case
  proof (cases "i \<le> m")
    case True
    then have n: "nat (m + 1 - i) = Suc (nat (m + 1 - (i + 1)))" by simp
    have ih: "i + 1 \<le> m + 1" using True by simp
    note IH = "1.IH" [OF True refl ih]
    have step: "scale_loop i m c p = scale_loop (i + 1) m (fmul c (Finite 2))
              (p\<lparr>Bc := Bc p @ [fdiv c (Finite 360)],
                    Cc := Cc p @ [fdiv c (to_f64 (2 * pi))],
                    Zc := Zc p @ [(fdiv c (Finite 2), fdiv c (Finite 2))],
                    Ac := Ac p @ [c]\<rparr>)"
      using True by (subst scale_loop.simps) (simp add: Let_def)
    show ?thesis
      unfolding step n geom_tab.simps using IH by simp
  next
    case False
    then have z: "nat (m + 1 - i) = 0" using "1.prems" by simp
    have stop: "scale_loop i m c p = p"
      using False by (subst scale_loop.simps) simp
    show ?thesis
      unfolding stop z by simp
  qed
qed

lemma geom_tab_length [simp]: "length (geom_tab c n) = n"
  by (induction n arbitrary: c) simp_all

lemma geom_tab_nth: "k < n \<Longrightarrow> geom_tab (scale j) n ! k = scale (j + k)"
proof (induction n arbitrary: j k)
  case 0
  then show ?case by simp
next
  case (Suc n)
  show ?case
  proof (cases k)
    case 0
    then show ?thesis by simp
  next
    case (Suc k')
    then have "k' < n" using Suc.prems by simp
    then have "geom_tab (scale (Suc j)) n ! k' = scale (Suc j + k')" by (rule Suc.IH)
    then show ?thesis using Suc by simp
  qed
qed

lemma scale_table_nth: "k < n \<Longrightarrow> geom_tab (Finite 256) n ! k = scale k"
  using geom_tab_nth [of k n 0] by simp

lemma NewProjection_fields:
  "levels (NewProjection x0 y0 x1 y1 zl mz) = [zl..mz]"
  "xmin (NewProjection x0 y0 x1 y1 zl mz) = x0"
  "ymin (NewProjection x0 y0 x1 y1 zl mz) = y0"
  "xmax (NewProjection x0 y0 x1 y1 zl mz) = x1"
  "ymax (NewProjection x0 y0 x1 y1 zl mz) = y1"
proof -
  let ?p = "\<lparr>Bc = [], Cc = [], Ac = [], Zc = [], levels = [zl..mz],
              xmin = x0, ymin = y0, xmax = x1, ymax = y1\<rparr>"
  let ?q = "scale_loop 0 mz DEFAULT_TILE_SIZE ?p"
  have "levels ?q = levels ?p \<and> xmin ?q = xmin ?p \<and> ymin ?q = ymin ?p
        \<and> xmax ?q = xmax ?p \<and> ymax ?q = ymax ?p"
  proof (cases "0 \<le> mz + 1")
    case True
    then show ?thesis using scale_loop_fields [of 0 mz DEFAULT_TILE_SIZE ?p] by blast
  next
    case False
    then have "?q = ?p" by (subst scale_loop.simps) simp
    then show ?thesis by simp
  qed
  then show "levels (NewProjection x0 y0 x1 y1 zl mz) = [zl..mz]"
    "xmin (NewProjection x0 y0 x1 y1 zl mz) = x0"
    "ymin (NewProjection x0 y0 x1 y1 zl mz) = y0"
    "xmax (NewProjection x0 y0 x1 y1 zl mz) = x1"
    "ymax (NewProjection x0 y0 x1 y1 zl mz) = y1"
    unfolding NewProjection_def by simp_all
qed

lemma NewProjection_tables:
  assumes "0 \<le> mz"
  shows "Bc (NewProjection x0 y0 x1 y1 zl mz)
           = map (\<lambda>v. fdiv v (Finite 360)) (geom_tab (Finite 256) (nat (mz + 1)))"
    and "Cc (NewProjection x0 y0 x1 y1 zl mz)
           = map (\<lambda>v. fdiv v (to_f64 (2 * pi))) (geom_tab (Finite 256) (nat (mz + 1)))"
    and "Zc (NewProjection x0 y0 x1 y1 zl mz)
           = map (\<lambda>v. (fdiv v (Finite 2), fdiv v (Finite 2))) (geom_tab (Finite 256) (nat (mz + 1)))"
  unfolding NewProjection_def DEFAULT_TILE_SIZE_def
  using assms scale_loop_fields [of 0 mz "Finite 256"] by simp_all

lemma NewProjection_no_tables:
  assumes "mz < 0"
  shows "Zc (NewProjection x0 y0 x1 y1 zl mz) = []"
  unfolding NewProjection_def using assms by (subst scale_loop.simps) simp

lemma project_pixels_NewProjection:
  "project_pixels lib (NewProjection x0 y0 x1 y1 zl mz) lon lat zoom =
     (if 0 \<le> zoom \<and> zoom \<le> mz then Inr (pixel_x (nat zoom) lon, pixel_y lib (nat zoom) lat)
      else Inl IndexOutOfRange)"
proof (cases "0 \<le> mz")
  case True
  note T = NewProjection_tables [OF True, of x0 y0 x1 y1 zl]
  show ?thesis
  proof (cases "0 \<le> zoom \<and> zoom \<le> mz")
    case ok: True
    then have k: "nat zoom < nat (mz + 1)" by simp
    show ?thesis
      using ok k
      by (simp add: project_pixels_def index_ok_def T scale_table_nth pixel_x_def pixel_y_def
            clamped_sin_def Let_def)
  next
    case bad: False
    then show ?thesis
      using True by (auto simp add: project_pixels_def index_ok_def T)
  qed
next
  case False
  then have "Zc (NewProjection x0 y0 x1 y1 zl mz) = []"
    by (simp add: NewProjection_no_tables)
  then show ?thesis using False by (simp add: project_pixels_def index_ok_def)
qed

lemma level_loop_step:
  "level_loop lib p (zoom # zs) acc =
     (case raw_level lib p zoom of Inl err \<Rightarrow> Inl err | Inr l \<Rightarrow> level_loop lib p zs (acc @ l))"
  by (simp add: raw_level_def x_loop_eq Let_def tile_index_def split: sum.splits)

lemma level_loop_Inr:
  "level_loop lib p zs acc = Inr ts \<Longrightarrow>
     \<exists>ls. length ls = length zs \<and> (\<forall>k < length zs. raw_level lib p (zs ! k) = Inr (ls ! k))
          \<and> ts = acc @ concat ls"
proof (induction zs arbitrary: acc)
  case Nil
  then show ?case by simp
next
  case (Cons zoom zs)
  from Cons.prems obtain l where l: "raw_level lib p zoom = Inr l"
    and rest: "level_loop lib p zs (acc @ l) = Inr ts"
    unfolding level_loop_step by (auto split: sum.splits)
  from Cons.IH [OF rest] obtain ls where ls: "length ls = length zs"
    "\<forall>k < length zs. raw_level lib p (zs ! k) = Inr (ls ! k)" "ts = (acc @ l) @ concat ls"
    by blast
  have "\<forall>k < length (zoom # zs). raw_level lib p ((zoom # zs) ! k) = Inr ((l # ls) ! k)"
    using l ls(2) by (auto simp: nth_Cons split: nat.splits)
  then show ?case using ls by (intro exI [of _ "l # ls"]) simp
qed

lemma level_loop_all_ok:
  "(\<And>zoom. zoom \<in> set zs \<Longrightarrow> raw_level lib p zoom = Inr (f zoom)) \<Longrightarrow>
     level_loop lib p zs acc = Inr (acc @ concat (map f zs))"
proof (induction zs arbitrary: acc)
  case Nil
  then show ?case by simp
next
  case (Cons zoom zs)
  have "raw_level lib p zoom = Inr (f zoom)" using Cons.prems by simp
  moreover have "level_loop lib p zs (acc @ f zoom) = Inr ((acc @ f zoom) @ concat (map f zs))"
    using Cons.prems by (intro Cons.IH) simp
  ultimately show ?case unfolding level_loop_step by simp
qed

lemma set_column_tiles:
  "set (column_tiles zoom t ys ye i) = {mkTile zoom i j | j. ys \<le> j \<and> j \<le> ye \<and> in_grid t j}"
  by (auto simp: column_tiles_def)

lemma set_grid_tiles:
  "set (grid_tiles zoom t xs xe ys ye) =
     {mkTile zoom i j | i j. xs \<le> i \<and> i \<le> xe \<and> in_grid t i \<and> ys \<le> j \<and> j \<le> ye \<and> in_grid t j}"
  by (auto simp: grid_tiles_def set_column_tiles)

lemma raw_level_zoom_nonneg: "raw_level lib p zoom = Inr l \<Longrightarrow> 0 \<le> zoom"
  by (auto simp: raw_level_def project_pixels_def index_ok_def Let_def split: sum.splits if_splits)

lemma raw_level_NewProjection:
  "raw_level lib (NewProjection x0 y0 x1 y1 zl mz) zoom =
     (if 0 \<le> zoom \<and> zoom \<le> mz then Inr (level_tiles lib x0 y0 x1 y1 zoom)
      else Inl IndexOutOfRange)"
  by (simp add: raw_level_def project_pixels_NewProjection NewProjection_fields level_tiles_def)

lemma TileList_NewProjection:
  "TileList lib (NewProjection x0 y0 x1 y1 zl mz) =
     (if zl \<le> mz \<and> zl < 0 then Inl IndexOutOfRange
      else Inr (concat (map (level_tiles lib x0 y0 x1 y1) [zl..mz])))"
proof (cases "zl \<le> mz \<and> zl < 0")
  case True
  then have "[zl..mz] = zl # [zl + 1..mz]" by (simp add: upto_rec1)
  then show ?thesis
    using True by (simp add: TileList_def NewProjection_fields level_loop_step
        raw_level_NewProjection del: level_loop.simps)
next
  case False
  have "level_loop lib (NewProjection x0 y0 x1 y1 zl mz) [zl..mz] [] =
        Inr ([] @ concat (map (level_tiles lib x0 y0 x1 y1) [zl..mz]))"
    using False by (intro level_loop_all_ok) (auto simp: raw_level_NewProjection)
  then show ?thesis using False by (simp add: TileList_def NewProjection_fields)
qed

text \<open>
  Claim C1: every tile that \<open>TileList\<close> returns has a zoom level of the
  projection's \<open>levels\<close>, and its column and row lie in \<open>[0, 2^zoom)\<close>. The
  emitted column and row are themselves indices of the raw ranges
  \<open>[xrangeStart, xrangeEnd]\<close> and \<open>[yrangeStart, yrangeEnd]\<close> of that level: an
  index outside the grid is dropped, it is not wrapped or clamped to another value.
  The statement holds for every \<open>Projection\<close> value, hence for every bounding
  box (also one with an infinity or NaN) and every zoom range, and for every
  \<open>math.Sin\<close> and \<open>math.Log\<close>; it does not depend on how the pixel values were
  computed.
\<close>

theorem TileList_in_range:
  assumes "TileList lib p = Inr ts" and "t \<in> set ts"
  shows "tile_z t \<in> set (levels p) \<and> 0 \<le> tile_z t
       \<and> 0 \<le> tile_x t \<and> tile_x t < 2 ^ nat (tile_z t)
       \<and> 0 \<le> tile_y t \<and> tile_y t < 2 ^ nat (tile_z t)
       \<and> (\<exists>px0 px1.
             project_pixels lib p (xmin p) (ymax p) (tile_z t) = Inr px0
           \<and> project_pixels lib p (xmax p) (ymin p) (tile_z t) = Inr px1
           \<and> go_int (fdiv (fst px0) (Finite 256)) \<le> tile_x t
           \<and> tile_x t \<le> go_int (fdiv (fst px1) (Finite 256))
           \<and> go_int (fdiv (snd px0) (Finite 256)) \<le> tile_y t
           \<and> tile_y t \<le> go_int (fdiv (snd px1) (Finite 256)))"
proof -
  from assms(1) obtain ls where ls: "length ls = length (levels p)"
    "\<forall>k < length (levels p). raw_level lib p (levels p ! k) = Inr (ls ! k)" "ts = concat ls"
    unfolding TileList_def using level_loop_Inr [of lib p "levels p" "[]" ts] by auto
  from assms(2) ls(3) obtain l where "l \<in> set ls" "t \<in> set l" by auto
  then obtain k where k: "k < length ls" "ls ! k = l" by (auto simp: in_set_conv_nth)
  define zoom where "zoom = levels p ! k"
  have raw: "raw_level lib p zoom = Inr l" using k ls by (simp add: zoom_def)
  have mem: "zoom \<in> set (levels p)" using k ls(1) by (simp add: zoom_def)
  have nonneg: "0 \<le> zoom" using raw by (rule raw_level_zoom_nonneg)
  let ?T = "math_Pow2 (float64_of_int zoom)"
  from raw obtain px0 px1 where
    px0: "project_pixels lib p (xmin p) (ymax p) zoom = Inr px0" and
    px1: "project_pixels lib p (xmax p) (ymin p) zoom = Inr px1" and
    l: "l = grid_tiles zoom ?T (tile_index (fst px0)) (tile_index (fst px1))
             (tile_index (snd px0)) (tile_index (snd px1))"
    by (auto simp: raw_level_def split: sum.splits)
  from \<open>t \<in> set l\<close> obtain i j where t: "t = mkTile zoom i j"
    and i: "tile_index (fst px0) \<le> i" "i \<le> tile_index (fst px1)" "in_grid ?T i"
    and j: "tile_index (snd px0) \<le> j" "j \<le> tile_index (snd px1)" "in_grid ?T j"
    unfolding l set_grid_tiles by blast
  have "i < 2 ^ 63" using i(2) tile_index_range(2) [of "fst px1"] by linarith
  with i(3) nonneg have ri: "0 \<le> i \<and> i < 2 ^ nat zoom" by (intro in_grid_range)
  have "j < 2 ^ 63" using j(2) tile_index_range(2) [of "snd px1"] by linarith
  with j(3) nonneg have rj: "0 \<le> j \<and> j < 2 ^ nat zoom" by (intro in_grid_range)
  have tz: "tile_z t = zoom" "tile_x t = i" "tile_y t = j" by (simp_all add: t mkTile_def)
  have "tile_index (fst px0) \<le> i \<and> i \<le> tile_index (fst px1)
        \<and> tile_index (snd px0) \<le> j \<and> j \<le> tile_index (snd px1)"
    using i j by simp
  then show ?thesis
    unfolding tz using mem nonneg ri rj px0 px1
    by (simp add: tile_index_def DEFAULT_TILE_SIZE_def)
qed

section \<open>The order of the enumeration\<close>

lemma sorted_wrt_concat_map:
  assumes "sorted_wrt R xs"
    and "\<And>a. a \<in> set xs \<Longrightarrow> sorted_wrt P (f a)"
    and "\<And>a b u v. R a b \<Longrightarrow> u \<in> set (f a) \<Longrightarrow> v \<in> set (f b) \<Longrightarrow> P u v"
  shows "sorted_wrt P (concat (map f xs))"
  using assms(1,2)
proof (induction xs)
  case Nil
  then show ?case by simp
next
  case (Cons a xs)
  have "sorted_wrt P (concat (map f xs))" using Cons by simp
  moreover have "sorted_wrt P (f a)" using Cons.prems by simp
  moreover have "\<forall>u \<in> set (f a). \<forall>v \<in> set (concat (map f xs)). P u v"
    using Cons.prems(1) assms(3) by auto
  ultimately show ?case by (simp add: sorted_wrt_append)
qed

lemma sorted_column_tiles: "sorted_wrt tile_before (column_tiles zoom t ys ye i)"
proof -
  have "sorted_wrt (<) (filter (in_grid t) [ys..ye])"
    by (intro sorted_wrt_filter) simp
  then have "sorted_wrt (\<lambda>j j'. tile_before (mkTile zoom i j) (mkTile zoom i j'))
               (filter (in_grid t) [ys..ye])"
    by (rule sorted_wrt_mono_rel [rotated]) (simp add: tile_before_def mkTile_def)
  then show ?thesis by (simp add: column_tiles_def sorted_wrt_map)
qed

lemma sorted_grid_tiles: "sorted_wrt tile_before (grid_tiles zoom t xs xe ys ye)"
  unfolding grid_tiles_def
proof (rule sorted_wrt_concat_map [where R = "(<)"])
  show "sorted_wrt (<) (filter (in_grid t) [xs..xe])"
    by (intro sorted_wrt_filter) simp
  show "\<And>a. sorted_wrt tile_before (column_tiles zoom t ys ye a)"
    by (rule sorted_column_tiles)
  show "\<And>a b u v. a < b \<Longrightarrow> u \<in> set (column_tiles zoom t ys ye a) \<Longrightarrow>
          v \<in> set (column_tiles zoom t ys ye b) \<Longrightarrow> tile_before u v"
    by (auto simp: set_column_tiles tile_before_def mkTile_def)
qed

lemma sorted_levels:
  "sorted_wrt tile_before (concat (map (level_tiles lib x0 y0 x1 y1) [zl..mz]))"
proof (rule sorted_wrt_concat_map [where R = "(<)"])
  show "sorted_wrt (<) [zl..mz]" by simp
  show "\<And>a. sorted_wrt tile_before (level_tiles lib x0 y0 x1 y1 a)"
    by (simp add: level_tiles_def sorted_grid_tiles)
  show "\<And>a b u v. a < b \<Longrightarrow> u \<in> set (level_tiles lib x0 y0 x1 y1 a) \<Longrightarrow>
          v \<in> set (level_tiles lib x0 y0 x1 y1 b) \<Longrightarrow> tile_before u v"
    by (auto simp: level_tiles_def set_grid_tiles tile_before_def mkTile_def)
qed

text \<open>
  Claim C9: for a zoom range starting at a non-negative level, \<open>TileList\<close>
  returns the concatenation of the per-level lists \<open>level_tiles\<close> for the levels
  \<open>from, from+1, ..., to\<close> in this order, and the sequence is strictly ascending
  in the order zoom, then column, then row. \<open>TileList\<close> is a function of the
  projection (and of the library), so equal inputs give equal sequences. (For
  \<open>from > to\<close> the list of levels and the result are empty.)
\<close>

theorem TileList_order:
  assumes "0 \<le> zl"
  shows "TileList lib (NewProjection x0 y0 x1 y1 zl mz)
           = Inr (concat (map (level_tiles lib x0 y0 x1 y1) [zl..mz]))
       \<and> sorted_wrt tile_before (concat (map (level_tiles lib x0 y0 x1 y1) [zl..mz]))"
  using assms by (simp add: TileList_NewProjection sorted_levels)

text \<open>
  A negative first zoom level is not an index of the tables: the call panics.
\<close>

lemma TileList_negative_zoom:
  "zl \<le> mz \<Longrightarrow> zl < 0 \<Longrightarrow> TileList lib (NewProjection x0 y0 x1 y1 zl mz) = Inl IndexOutOfRange"
  by (simp add: TileList_NewProjection)

section \<open>Evaluation at concrete numbers\<close>

lemma to_f64_0 [simp]: "to_f64 0 = Finite 0"
proof -
  have "\<not> two_to 1024 \<le> 0" using two_to_pos [of 1024] by linarith
  then show ?thesis by (simp add: to_f64_def)
qed

lemma to_f64_int: "\<bar>m\<bar> < 2 ^ 53 \<Longrightarrow> to_f64 (of_int m) = Finite (of_int m)"
  by (intro to_f64_exact representable_of_int)

lemma to_f64_dyadic:
  "\<bar>m\<bar> < 2 ^ 53 \<Longrightarrow> k \<le> 1074 \<Longrightarrow> to_f64 (of_int m / 2 ^ k) = Finite (of_int m / 2 ^ k)"
  by (intro to_f64_exact representable_dyadic)

lemma to_f64_numeral [simp]:
  "(numeral n :: int) < 2 ^ 53 \<Longrightarrow> to_f64 (numeral n) = Finite (numeral n)"
  using to_f64_int [of "numeral n"] by simp

lemma to_f64_1 [simp]: "to_f64 1 = Finite 1"
  using to_f64_int [of 1] by simp

lemma to_f64_half [simp]:
  "(numeral n :: int) < 2 ^ 53 \<Longrightarrow> to_f64 (numeral n / 2) = Finite (numeral n / 2)"
  using to_f64_dyadic [of "numeral n" 1] by simp

lemma to_f64_one_half [simp]: "to_f64 (1 / 2) = Finite (1 / 2)"
  using to_f64_dyadic [of 1 1] by simp

lemma representable_numeral: "(numeral n :: int) < 2 ^ 53 \<Longrightarrow> representable (numeral n)"
  using representable_of_int [of "numeral n"] by simp

lemma representable_fraction:
  "(numeral n :: int) < 2 ^ 53 \<Longrightarrow> k \<le> 1074 \<Longrightarrow> representable (numeral n / 2 ^ k)"
  using representable_dyadic [of "numeral n" k] by simp

lemma representable_0 [simp]: "representable 0"
  using representable_of_int [of 0] by simp

lemma representable_1 [simp]: "representable 1"
  using representable_of_int [of 1] by simp

lemma scale_closed: "k + 8 \<le> 1023 \<Longrightarrow> scale k = Finite (2 ^ (k + 8))"
proof (induction k)
  case 0
  then show ?case by simp
next
  case (Suc k)
  then have ih: "scale k = Finite (2 ^ (k + 8))" by simp
  have "to_f64 (2 ^ (Suc k + 8)) = Finite (2 ^ (Suc k + 8))"
    using Suc.prems by (intro to_f64_pow2)
  moreover have "(2::real) ^ (k + 8) * 2 = 2 ^ (Suc k + 8)" by (simp add: power_add)
  ultimately have "to_f64 (2 ^ (k + 8) * 2) = Finite (2 ^ (Suc k + 8))" by (simp only:)
  then show ?case by (simp only: scale.simps ih fmul.simps)
qed

lemma half_scale: "k + 8 \<le> 1023 \<Longrightarrow> fdiv (scale k) (Finite 2) = Finite (2 ^ (k + 7))"
proof -
  assume k: "k + 8 \<le> 1023"
  have "to_f64 (2 ^ (k + 7)) = Finite (2 ^ (k + 7))" using k by (intro to_f64_pow2) simp
  moreover have "(2::real) ^ (k + 8) / 2 = 2 ^ (k + 7)" by (simp add: power_add)
  ultimately have "to_f64 (2 ^ (k + 8) / 2) = Finite (2 ^ (k + 7))" by (simp only:)
  then show ?thesis by (simp add: scale_closed [OF k])
qed

lemma Bc_finite:
  assumes "k + 8 \<le> 1023"
  shows "fdiv (scale k) (Finite 360) = Finite (round_real (2 ^ (k + 8) / 360))"
proof -
  have "\<bar>(2::real) ^ (k + 8) / 360\<bar> \<le> 2 ^ (k + 8)" by (simp add: field_simps)
  also have "\<dots> = two_to (int (k + 8))" by (simp only: two_to_int)
  finally have b: "\<bar>(2::real) ^ (k + 8) / 360\<bar> \<le> two_to (int (k + 8))" .
  have "int (k + 8) \<le> 1023" using assms by simp
  with b have "to_f64 (2 ^ (k + 8) / 360) = Finite (round_real (2 ^ (k + 8) / 360))"
    by (rule to_f64_finite)
  then show ?thesis by (simp add: scale_closed [OF assms])
qed

text \<open>
  The rounded constant \<open>2 pi\<close> lies between 4 and 8.
\<close>

lemma two_pi_between: "between 4 8 (to_f64 (2 * pi))"
proof (rule between_to_f64)
  show "4 \<le> 2 * pi" using pi_ge_two by simp
  show "2 * pi \<le> 8" using pi_less_4 by simp
  show "representable 4" by (simp add: representable_numeral)
  show "representable 8" by (simp add: representable_numeral)
qed

lemma Cc_between:
  assumes "k + 8 \<le> 1023"
  shows "between (2 ^ (k + 5)) (2 ^ (k + 6)) (fdiv (scale k) (to_f64 (2 * pi)))"
proof -
  from two_pi_between obtain t where t: "to_f64 (2 * pi) = Finite t" "4 \<le> t" "t \<le> 8"
    by (rule betweenE)
  have r1: "representable (2 ^ (k + 5))" using assms by (intro representable_pow2) simp
  have r2: "representable (2 ^ (k + 6))" using assms by (intro representable_pow2) simp
  have "(2::real) ^ (k + 8) / 8 \<le> 2 ^ (k + 8) / t" using t by (intro divide_left_mono) simp_all
  then have lo: "(2::real) ^ (k + 5) \<le> 2 ^ (k + 8) / t" by (simp add: power_add)
  have "(2::real) ^ (k + 8) / t \<le> 2 ^ (k + 8) / 4" using t by (intro divide_left_mono) simp_all
  then have hi: "(2::real) ^ (k + 8) / t \<le> 2 ^ (k + 6)" by (simp add: power_add)
  have "between (2 ^ (k + 5)) (2 ^ (k + 6)) (to_f64 (2 ^ (k + 8) / t))"
    using lo hi r1 r2 by (rule between_to_f64)
  then show ?thesis using t by (simp add: scale_closed [OF assms])
qed

text \<open>
  The constants of the clamp and of the conversion to radians.
\<close>

lemma clamp_hi_between: "between (1 / 2) 1 (to_f64 0.9999)"
proof (rule between_to_f64)
  show "representable (1 / 2)" using representable_dyadic [of 1 1] by simp
qed simp_all

lemma clamp_lo_between: "between (- 1) (- (1 / 2)) (to_f64 (- 0.9999))"
  using fneg_between [OF clamp_hi_between] by (simp add: to_f64_minus)

lemma DEG_TO_RAD_between: "between (1 / 128) (1 / 32) DEG_TO_RAD"
  unfolding DEG_TO_RAD_def
proof (rule between_to_f64)
  show "1 / 128 \<le> pi / 180" using pi_ge_two by simp
  show "pi / 180 \<le> 1 / 32" using pi_less_4 by simp
  show "representable (1 / 128)" using representable_dyadic [of 1 7] by simp
  show "representable (1 / 32)" using representable_dyadic [of 1 5] by simp
qed

text \<open>
  The equator: with a library that is exact at the origin, the pixel row of
  latitude 0 is the middle of the map.
\<close>

lemma ideal_lib_origin: "exact_at_origin ideal_lib"
  by (simp add: exact_at_origin_def ideal_lib_def ideal_Sin_def ideal_Log_def)

lemma clamped_sin_0:
  assumes "exact_at_origin lib"
  shows "clamped_sin lib (Finite 0) = Finite 0"
proof -
  from DEG_TO_RAD_between obtain d where d: "DEG_TO_RAD = Finite d" by (rule betweenE)
  from clamp_hi_between obtain h where h: "to_f64 0.9999 = Finite h" "1 / 2 \<le> h" by (rule betweenE)
  from clamp_lo_between obtain l where l: "to_f64 (- 0.9999) = Finite l" "l \<le> - (1 / 2)"
    by (rule betweenE)
  have s: "math_Sin lib (fmul DEG_TO_RAD (Finite 0)) = Finite 0"
    using assms by (simp add: d exact_at_origin_def)
  show ?thesis
    unfolding clamped_sin_def s h(1) l(1) using h(2) l(2)
    by (simp add: minMax_def math_Max_def math_Min_def Let_def)
qed

lemma Round_int:
  assumes "0 \<le> n" and "n < 2 ^ 52"
  shows "Round (Finite (of_int n)) = Finite (of_int n)"
proof -
  have eq: "(of_int (2 * n + 1) / 2 ^ 1 :: real) = of_int n + 1 / 2" by (simp add: field_simps)
  have "\<bar>2 * n + 1\<bar> < 2 ^ 53" using assms by simp
  then have "to_f64 (of_int (2 * n + 1) / 2 ^ 1) = Finite (of_int (2 * n + 1) / 2 ^ 1)"
    by (intro to_f64_dyadic) simp_all
  then have t: "to_f64 (of_int n + 1 / 2) = Finite (of_int n + 1 / 2)" unfolding eq .
  have fl: "\<lfloor>of_int n + 1 / 2 :: real\<rfloor> = n" by linarith
  have nn: "\<not> fless (Finite (of_int n)) (Finite 0)" using assms(1) by simp
  have "Round (Finite (of_int n)) = math_Floor (fadd (Finite (of_int n)) (Finite (1 / 2)))"
    using nn by (simp add: Round_def)
  also have "\<dots> = math_Floor (Finite (of_int n + 1 / 2))" by (simp only: fadd.simps t)
  also have "\<dots> = Finite (of_int n)" by (simp only: math_Floor.simps fl)
  finally show ?thesis .
qed

lemma pixel_y_0:
  assumes "exact_at_origin lib" and "k \<le> 44"
  shows "pixel_y lib k (Finite 0) = Finite (2 ^ (k + 7))"
proof -
  have k: "k + 8 \<le> 1023" using assms(2) by simp
  from Cc_between [OF k] obtain c where c: "fdiv (scale k) (to_f64 (2 * pi)) = Finite c"
    by (rule betweenE)
  have l: "math_Log lib (Finite 1) = Finite 0" using assms(1) by (simp add: exact_at_origin_def)
  have "(2::int) ^ (k + 7) \<le> 2 ^ 51" using assms(2) by (intro power_increasing) simp_all
  then have "Round (Finite (of_int (2 ^ (k + 7)))) = Finite (of_int (2 ^ (k + 7)))"
    by (intro Round_int) simp_all
  then have r: "Round (Finite (2 ^ (k + 7))) = Finite (2 ^ (k + 7))" by simp
  have e: "to_f64 (2 ^ (k + 7)) = Finite (2 ^ (k + 7))" using k by (intro to_f64_pow2) simp
  show ?thesis
    unfolding pixel_y_def clamped_sin_0 [OF assms(1)] half_scale [OF k] c
    by (simp add: fsub_def l e r)
qed

lemma pixel_x_0:
  assumes "k \<le> 44"
  shows "pixel_x k (Finite 0) = Finite (2 ^ (k + 7))"
proof -
  have k: "k + 8 \<le> 1023" using assms by simp
  have "(2::int) ^ (k + 7) \<le> 2 ^ 51" using assms by (intro power_increasing) simp_all
  then have "Round (Finite (of_int (2 ^ (k + 7)))) = Finite (of_int (2 ^ (k + 7)))"
    by (intro Round_int) simp_all
  then have r: "Round (Finite (2 ^ (k + 7))) = Finite (2 ^ (k + 7))" by simp
  have e: "to_f64 (2 ^ (k + 7)) = Finite (2 ^ (k + 7))" using k by (intro to_f64_pow2) simp
  show ?thesis
    unfolding pixel_x_def half_scale [OF k] Bc_finite [OF k]
    by (simp add: e r)
qed

lemma tile_index_int:
  assumes "0 \<le> n" and "n < 2 ^ 53"
  shows "tile_index (Finite (of_int n)) = n div 256"
proof -
  have "to_f64 (of_int n / 2 ^ 8) = Finite (of_int n / 2 ^ 8)"
    using assms by (intro to_f64_dyadic) simp_all
  then have f: "fdiv (Finite (of_int n)) (Finite 256) = Finite (of_int n / 256)" by simp
  have nn: "\<not> (of_int n / 256 :: real) < 0" using assms(1) by simp
  have fl: "\<lfloor>of_int n / 256 :: real\<rfloor> = n div 256"
    using floor_divide_of_int_eq [of n 256, where ?'a = real] by simp
  have "n div 256 \<le> n" using assms(1) by presburger
  then have "n div 256 < 2 ^ 63" using assms(2) by simp
  moreover have "0 \<le> n div 256" using assms(1) by (simp add: pos_imp_zdiv_nonneg_iff)
  ultimately show ?thesis
    unfolding tile_index_def DEFAULT_TILE_SIZE_def f go_int.simps Let_def fl MinInt64_def
    using nn by simp
qed

lemma tile_index_middle:
  assumes "k \<le> 44"
  shows "tile_index (Finite (2 ^ (k + 7))) = 2 ^ k div 2"
proof -
  have "(2::int) ^ (k + 7) \<le> 2 ^ 51" using assms by (intro power_increasing) simp_all
  then have "tile_index (Finite (of_int (2 ^ (k + 7)))) = 2 ^ (k + 7) div 256"
    by (intro tile_index_int) simp_all
  moreover have "(2::int) ^ (k + 7) div 256 = 2 ^ k div 2"
  proof -
    have "(2::int) ^ (k + 7) = (2 ^ k) * 128" by (simp add: power_add)
    moreover have "(256::int) = 2 * 128" by simp
    ultimately show ?thesis by simp
  qed
  ultimately show ?thesis by simp
qed

section \<open>Concrete enumerations\<close>

lemma Round_near:
  assumes "between (of_int n - 1 / 4) (of_int n + 1 / 4) v" and "0 < n" and "n < 2 ^ 50"
  shows "Round v = Finite (of_int n)"
proof -
  from assms(1) obtain x where x: "v = Finite x" "of_int n - 1 / 4 \<le> x" "x \<le> of_int n + 1 / 4"
    by (rule betweenE)
  have pos: "0 \<le> x" using x(2) assms(2) by simp
  have lo: "representable (of_int (4 * n + 1) / 2 ^ 2)"
    using assms(2,3) by (intro representable_dyadic) simp_all
  have hi: "representable (of_int (4 * n + 3) / 2 ^ 2)"
    using assms(2,3) by (intro representable_dyadic) simp_all
  have "between (of_int (4 * n + 1) / 2 ^ 2) (of_int (4 * n + 3) / 2 ^ 2) (to_f64 (x + 1 / 2))"
    using x(2,3) by (intro between_to_f64 lo hi) (simp_all add: field_simps)
  then obtain y where y: "to_f64 (x + 1 / 2) = Finite y"
    "of_int (4 * n + 1) / 2 ^ 2 \<le> y" "y \<le> of_int (4 * n + 3) / 2 ^ 2"
    by (rule betweenE)
  have "of_int n \<le> y" "y < of_int n + 1" using y(2,3) by (simp_all add: field_simps)
  then have fl: "\<lfloor>y\<rfloor> = n" by linarith
  have "Round v = math_Floor (fadd (Finite x) (Finite (1 / 2)))"
    using pos by (simp add: Round_def x(1))
  also have "\<dots> = Finite (of_int n)" by (simp only: fadd.simps y(1) math_Floor.simps fl)
  finally show ?thesis .
qed

lemma fadd_near:
  assumes "between (of_int m - 1 / 4) (of_int m + 1 / 4) p"
    and "\<bar>c + m\<bar> < 2 ^ 50"
  shows "between (of_int (c + m) - 1 / 4) (of_int (c + m) + 1 / 4) (fadd (Finite (of_int c)) p)"
proof -
  have lo: "representable (of_int (4 * (c + m) - 1) / 2 ^ 2)"
    using assms(2) by (intro representable_dyadic) simp_all
  have hi: "representable (of_int (4 * (c + m) + 1) / 2 ^ 2)"
    using assms(2) by (intro representable_dyadic) simp_all
  have l: "(of_int (4 * (c + m) - 1) / 2 ^ 2 :: real) = of_int (c + m) - 1 / 4"
    by (simp add: field_simps)
  have h: "(of_int (4 * (c + m) + 1) / 2 ^ 2 :: real) = of_int (c + m) + 1 / 4"
    by (simp add: field_simps)
  have c: "between (of_int c) (of_int c) (Finite (of_int c))" by simp
  show ?thesis
    using lo hi unfolding l h
    by (intro fadd_between [OF c assms(1)]) simp_all
qed

text \<open>
  The pixel column of a longitude whose product with the scale of the level lies
  within a quarter of the whole number \<open>m\<close>.
\<close>

lemma pixel_x_near:
  assumes "k \<le> 42"
    and "between (of_int m - 1 / 4) (of_int m + 1 / 4) (fmul lon (fdiv (scale k) (Finite 360)))"
    and "- (2 ^ (k + 7)) < m" and "m < 2 ^ 49"
  shows "pixel_x k lon = Finite (of_int (2 ^ (k + 7) + m))"
proof -
  have k: "k + 8 \<le> 1023" using assms(1) by simp
  have p: "(2::int) ^ (k + 7) \<le> 2 ^ 49" using assms(1) by (intro power_increasing) simp_all
  have "\<bar>2 ^ (k + 7) + m\<bar> < 2 ^ 50" using p assms(3,4) by simp
  then have "between (of_int (2 ^ (k + 7) + m) - 1 / 4) (of_int (2 ^ (k + 7) + m) + 1 / 4)
               (fadd (Finite (of_int (2 ^ (k + 7)))) (fmul lon (fdiv (scale k) (Finite 360))))"
    by (intro fadd_near assms(2))
  then have "Round (fadd (Finite (of_int (2 ^ (k + 7)))) (fmul lon (fdiv (scale k) (Finite 360))))
             = Finite (of_int (2 ^ (k + 7) + m))"
    using p assms(3,4) by (intro Round_near) simp_all
  then show ?thesis unfolding pixel_x_def half_scale [OF k] by simp
qed

text \<open>
  The tiles of a level whose index ranges are known.
\<close>

lemma level_tiles_ranges:
  assumes "0 \<le> zoom" and "zoom \<le> 53"
    and "tile_index (pixel_x (nat zoom) x0) = xs" and "tile_index (pixel_x (nat zoom) x1) = xe"
    and "tile_index (pixel_y lib (nat zoom) y1) = ys" and "tile_index (pixel_y lib (nat zoom) y0) = ye"
  shows "level_tiles lib x0 y0 x1 y1 zoom =
           concat (map (\<lambda>i. map (mkTile zoom i) (filter (\<lambda>j. 0 \<le> j \<and> j < 2 ^ nat zoom) [ys..ye]))
                    (filter (\<lambda>i. 0 \<le> i \<and> i < 2 ^ nat zoom) [xs..xe]))"
proof -
  have g: "in_grid (math_Pow2 (float64_of_int zoom)) = (\<lambda>j. 0 \<le> j \<and> j < 2 ^ nat zoom)"
    using in_grid_iff [OF assms(1,2)] by (simp add: fun_eq_iff)
  show ?thesis
    unfolding level_tiles_def grid_tiles_def column_tiles_def assms(3-6) g
    by (simp add: comp_def)
qed

text \<open>
  Claim C6, as the code has it: for a degenerate box (both corners the point
  \<open>(lon, lat)\<close>) at zoom 10 the enumeration is the single tile of that point when
  the column and the row that the float64 computation gives lie in the grid
  \<open>[0, 2^10)\<close>, and empty otherwise. This holds for every float64 \<open>lon\<close> and \<open>lat\<close>
  and every \<open>math.Sin\<close> and \<open>math.Log\<close>.
\<close>

theorem degenerate_bbox_tiles:
  "TileList lib (NewProjection lon lat lon lat 10 10) =
     Inr (if 0 \<le> tile_index (pixel_x 10 lon) \<and> tile_index (pixel_x 10 lon) < 1024
           \<and> 0 \<le> tile_index (pixel_y lib 10 lat) \<and> tile_index (pixel_y lib 10 lat) < 1024
          then [mkTile 10 (tile_index (pixel_x 10 lon)) (tile_index (pixel_y lib 10 lat))]
          else [])"
proof -
  have "level_tiles lib lon lat lon lat 10 =
          concat (map (\<lambda>i. map (mkTile 10 i)
                     (filter (\<lambda>j. 0 \<le> j \<and> j < 2 ^ nat 10)
                        [tile_index (pixel_y lib (nat 10) lat)..tile_index (pixel_y lib (nat 10) lat)]))
                    (filter (\<lambda>i. 0 \<le> i \<and> i < 2 ^ nat 10)
                        [tile_index (pixel_x (nat 10) lon)..tile_index (pixel_x (nat 10) lon)]))"
    by (rule level_tiles_ranges) simp_all
  then show ?thesis by (simp add: TileList_NewProjection)
qed

lemma column_of_lon_0: "k \<le> 42 \<Longrightarrow> tile_index (pixel_x k (Finite 0)) = 2 ^ k div 2"
  by (simp add: pixel_x_0 tile_index_middle)

lemma row_of_lat_0:
  "exact_at_origin lib \<Longrightarrow> k \<le> 42 \<Longrightarrow> tile_index (pixel_y lib k (Finite 0)) = 2 ^ k div 2"
  by (simp add: pixel_y_0 tile_index_middle)

text \<open>
  At the point \<open>(0, 0)\<close> the single tile is \<open>(z=10, x=512, y=512)\<close>.
\<close>

theorem degenerate_bbox_tiles_witness:
  "TileList ideal_lib (NewProjection (Finite 0) (Finite 0) (Finite 0) (Finite 0) 10 10)
     = Inr [mkTile 10 512 512]"
  using degenerate_bbox_tiles [of ideal_lib "Finite 0" "Finite 0"]
    column_of_lon_0 [of 10] row_of_lat_0 [OF ideal_lib_origin, of 10]
  by simp

text \<open>
  Longitude 180 at level 10. The scale \<open>262144 / 360\<close> is rounded, and so is its
  product with 180; the sum with the origin 131072 lies within a quarter of
  262144, which is the pixel column. The tile column is \<open>1024 = 2^10\<close>.
\<close>

lemma Bc_10_between: "between (745654 / 2 ^ 10) (745655 / 2 ^ 10) (fdiv (scale 10) (Finite 360))"
proof -
  have r1: "representable (745654 / 2 ^ 10)" using representable_dyadic [of 745654 10] by simp
  have r2: "representable (745655 / 2 ^ 10)" using representable_dyadic [of 745655 10] by simp
  have "between (745654 / 2 ^ 10) (745655 / 2 ^ 10) (to_f64 (2 ^ 18 / 360))"
    by (rule between_to_f64 [OF _ _ r1 r2]) simp_all
  then show ?thesis by (simp add: scale_closed)
qed

lemma column_of_lon_180: "tile_index (pixel_x 10 (Finite 180)) = 1024"
proof -
  have r: "representable (of_int (4 * 131072 - 1) / 2 ^ 2)" "representable (of_int (4 * 131072 + 1) / 2 ^ 2)"
    by (intro representable_dyadic; simp)+
  have l: "between 180 180 (Finite 180)" by simp
  have "between (of_int (4 * 131072 - 1) / 2 ^ 2) (of_int (4 * 131072 + 1) / 2 ^ 2)
          (fmul (Finite 180) (fdiv (scale 10) (Finite 360)))"
    by (rule fmul_between [OF l Bc_10_between _ _ _ _ r]) simp_all
  then have "between (of_int 131072 - 1 / 4) (of_int 131072 + 1 / 4)
          (fmul (Finite 180) (fdiv (scale 10) (Finite 360)))"
    by simp
  then have "pixel_x 10 (Finite 180) = Finite (of_int (2 ^ (10 + 7) + 131072))"
    by (intro pixel_x_near) simp_all
  then have "pixel_x 10 (Finite 180) = Finite (of_int 262144)" by simp
  then show ?thesis using tile_index_int [of 262144] by simp
qed

text \<open>
  At longitude 180 the pixel column is \<open>262144\<close>, the tile column is
  \<open>1024 = 2^10\<close>, outside the grid: the degenerate box \<open>(180, 0)-(180, 0)\<close>
  yields no tile at zoom 10, not exactly one.
\<close>

theorem degenerate_bbox_counterexample:
  "TileList ideal_lib (NewProjection (Finite 180) (Finite 0) (Finite 180) (Finite 0) 10 10) = Inr []"
proof -
  have "level_tiles ideal_lib (Finite 180) (Finite 0) (Finite 180) (Finite 0) 10 =
          concat (map (\<lambda>i. map (mkTile 10 i) (filter (\<lambda>j. 0 \<le> j \<and> j < 2 ^ nat 10) [512..512]))
                    (filter (\<lambda>i. 0 \<le> i \<and> i < 2 ^ nat 10) [1024..1024]))"
    using column_of_lon_180 row_of_lat_0 [OF ideal_lib_origin, of 10]
    by (intro level_tiles_ranges) simp_all
  then show ?thesis by (simp add: TileList_NewProjection)
qed

lemma TileList_origin:
  "TileList ideal_lib (NewProjection (Finite 0) (Finite 0) (Finite 0) (Finite 0) 1 1)
     = Inr [mkTile 1 1 1]"
proof -
  have "level_tiles ideal_lib (Finite 0) (Finite 0) (Finite 0) (Finite 0) 1 =
          concat (map (\<lambda>i. map (mkTile 1 i) (filter (\<lambda>j. 0 \<le> j \<and> j < 2 ^ nat 1) [1..1]))
                    (filter (\<lambda>i. 0 \<le> i \<and> i < 2 ^ nat 1) [1..1]))"
    using column_of_lon_0 [of 1] row_of_lat_0 [OF ideal_lib_origin, of 1]
    by (intro level_tiles_ranges) simp_all
  then show ?thesis by (simp add: TileList_NewProjection)
qed

text \<open>
  The invariant at the bounding box \<open>(0, 0)-(0, 0)\<close>, zoom range \<open>1..1\<close>:
  the enumeration is the single tile \<open>(z=1, x=1, y=1)\<close>.
\<close>

theorem TileList_in_range_witness:
  "TileList ideal_lib (NewProjection (Finite 0) (Finite 0) (Finite 0) (Finite 0) 1 1)
     = Inr [mkTile 1 1 1]
   \<and> 0 \<le> tile_x (mkTile 1 1 1) \<and> tile_x (mkTile 1 1 1) < 2 ^ nat (tile_z (mkTile 1 1 1))
   \<and> 0 \<le> tile_y (mkTile 1 1 1) \<and> tile_y (mkTile 1 1 1) < 2 ^ nat (tile_z (mkTile 1 1 1))"
  using TileList_in_range [OF TileList_origin, of "mkTile 1 1 1"] TileList_origin
  by simp

text \<open>
  Longitude -90 at the levels 1 and 2: the pixel columns are 128 and 256.
\<close>

lemma column_of_lon_minus_90_1: "tile_index (pixel_x 1 (Finite (- 90))) = 0"
proof -
  have b: "between (1456 / 2 ^ 10) (1457 / 2 ^ 10) (fdiv (scale 1) (Finite 360))"
  proof -
    have r1: "representable (1456 / 2 ^ 10)" using representable_dyadic [of 1456 10] by simp
    have r2: "representable (1457 / 2 ^ 10)" using representable_dyadic [of 1457 10] by simp
    have "between (1456 / 2 ^ 10) (1457 / 2 ^ 10) (to_f64 (2 ^ 9 / 360))"
      by (rule between_to_f64 [OF _ _ r1 r2]) simp_all
    then show ?thesis by (simp add: scale_closed)
  qed
  have r: "representable (of_int (4 * 128 - 1) / 2 ^ 2)" "representable (of_int (4 * 128 + 1) / 2 ^ 2)"
    by (intro representable_dyadic; simp)+
  have l: "between 90 90 (Finite 90)" by simp
  have "between (of_int (4 * 128 - 1) / 2 ^ 2) (of_int (4 * 128 + 1) / 2 ^ 2)
          (fmul (Finite 90) (fdiv (scale 1) (Finite 360)))"
    by (rule fmul_between [OF l b _ _ _ _ r]) simp_all
  then have "between (- (of_int (4 * 128 + 1) / 2 ^ 2)) (- (of_int (4 * 128 - 1) / 2 ^ 2))
          (fneg (fmul (Finite 90) (fdiv (scale 1) (Finite 360))))"
    by (rule fneg_between)
  moreover have "fneg (fmul (Finite 90) (fdiv (scale 1) (Finite 360)))
                 = fmul (Finite (- 90)) (fdiv (scale 1) (Finite 360))"
    using fmul_fneg_left [of "Finite 90"] by simp
  ultimately have "between (of_int (- 128) - 1 / 4) (of_int (- 128) + 1 / 4)
          (fmul (Finite (- 90)) (fdiv (scale 1) (Finite 360)))"
    by simp
  then have "pixel_x 1 (Finite (- 90)) = Finite (of_int (2 ^ (1 + 7) + - 128))"
    by (intro pixel_x_near) simp_all
  then have "pixel_x 1 (Finite (- 90)) = Finite (of_int 128)" by simp
  then show ?thesis using tile_index_int [of 128] by simp
qed

lemma column_of_lon_minus_90_2: "tile_index (pixel_x 2 (Finite (- 90))) = 1"
proof -
  have b: "between (2912 / 2 ^ 10) (2913 / 2 ^ 10) (fdiv (scale 2) (Finite 360))"
  proof -
    have r1: "representable (2912 / 2 ^ 10)" using representable_dyadic [of 2912 10] by simp
    have r2: "representable (2913 / 2 ^ 10)" using representable_dyadic [of 2913 10] by simp
    have "between (2912 / 2 ^ 10) (2913 / 2 ^ 10) (to_f64 (2 ^ 10 / 360))"
      by (rule between_to_f64 [OF _ _ r1 r2]) simp_all
    then show ?thesis by (simp add: scale_closed)
  qed
  have r: "representable (of_int (4 * 256 - 1) / 2 ^ 2)" "representable (of_int (4 * 256 + 1) / 2 ^ 2)"
    by (intro representable_dyadic; simp)+
  have l: "between 90 90 (Finite 90)" by simp
  have "between (of_int (4 * 256 - 1) / 2 ^ 2) (of_int (4 * 256 + 1) / 2 ^ 2)
          (fmul (Finite 90) (fdiv (scale 2) (Finite 360)))"
    by (rule fmul_between [OF l b _ _ _ _ r]) simp_all
  then have "between (- (of_int (4 * 256 + 1) / 2 ^ 2)) (- (of_int (4 * 256 - 1) / 2 ^ 2))
          (fneg (fmul (Finite 90) (fdiv (scale 2) (Finite 360))))"
    by (rule fneg_between)
  moreover have "fneg (fmul (Finite 90) (fdiv (scale 2) (Finite 360)))
                 = fmul (Finite (- 90)) (fdiv (scale 2) (Finite 360))"
    using fmul_fneg_left [of "Finite 90"] by simp
  ultimately have "between (of_int (- 256) - 1 / 4) (of_int (- 256) + 1 / 4)
          (fmul (Finite (- 90)) (fdiv (scale 2) (Finite 360)))"
    by simp
  then have "pixel_x 2 (Finite (- 90)) = Finite (of_int (2 ^ (2 + 7) + - 256))"
    by (intro pixel_x_near) simp_all
  then have "pixel_x 2 (Finite (- 90)) = Finite (of_int 256)" by simp
  then show ?thesis using tile_index_int [of 256] by simp
qed

text \<open>
  The order at the box \<open>(-90, 0)-(0, 0)\<close>, zoom range \<open>1..2\<close>: two columns
  at zoom 1, then two columns at zoom 2.
\<close>

theorem TileList_order_witness:
  "TileList ideal_lib (NewProjection (Finite (- 90)) (Finite 0) (Finite 0) (Finite 0) 1 2)
     = Inr [mkTile 1 0 1, mkTile 1 1 1, mkTile 2 1 2, mkTile 2 2 2]
   \<and> sorted_wrt tile_before [mkTile 1 0 1, mkTile 1 1 1, mkTile 2 1 2, mkTile 2 2 2]"
proof -
  have "level_tiles ideal_lib (Finite (- 90)) (Finite 0) (Finite 0) (Finite 0) 1 =
          concat (map (\<lambda>i. map (mkTile 1 i) (filter (\<lambda>j. 0 \<le> j \<and> j < 2 ^ nat 1) [1..1]))
                    (filter (\<lambda>i. 0 \<le> i \<and> i < 2 ^ nat 1) [0..1]))"
    using column_of_lon_minus_90_1 column_of_lon_0 [of 1] row_of_lat_0 [OF ideal_lib_origin, of 1]
    by (intro level_tiles_ranges) simp_all
  then have l1: "level_tiles ideal_lib (Finite (- 90)) (Finite 0) (Finite 0) (Finite 0) 1
                 = [mkTile 1 0 1, mkTile 1 1 1]"
    by (simp add: upto_rec1)
  have "level_tiles ideal_lib (Finite (- 90)) (Finite 0) (Finite 0) (Finite 0) 2 =
          concat (map (\<lambda>i. map (mkTile 2 i) (filter (\<lambda>j. 0 \<le> j \<and> j < 2 ^ nat 2) [2..2]))
                    (filter (\<lambda>i. 0 \<le> i \<and> i < 2 ^ nat 2) [1..2]))"
    using column_of_lon_minus_90_2 column_of_lon_0 [of 2] row_of_lat_0 [OF ideal_lib_origin, of 2]
    by (intro level_tiles_ranges) simp_all
  then have l2: "level_tiles ideal_lib (Finite (- 90)) (Finite 0) (Finite 0) (Finite 0) 2
                 = [mkTile 2 1 2, mkTile 2 2 2]"
    by (simp add: upto_rec1)
  show ?thesis
    using TileList_order [of 1 ideal_lib "Finite (- 90)" "Finite 0" "Finite 0" "Finite 0" 2]
    by (simp add: l1 l2 upto_rec1)
qed

section \<open>Rounding\<close>

lemma rne_nearest:
  assumes "\<bar>r - of_int n\<bar> < 1 / 2"
  shows "rne r = n"
proof -
  have "of_int n - 1 / 2 < r" "r < of_int n + 1 / 2" using assms by linarith+
  then consider "\<lfloor>r\<rfloor> = n" "r - of_int n < 1 / 2" | "\<lfloor>r\<rfloor> = n - 1" "1 / 2 < r - of_int (n - 1)"
    by (cases "of_int n \<le> r") (simp add: floor_unique, simp add: floor_unique)
  then show ?thesis
  proof cases
    case 1
    then show ?thesis by (simp add: rne_def Let_def)
  next
    case 2
    then show ?thesis by (simp add: rne_def Let_def)
  qed
qed

lemma to_f64_nearest:
  assumes "two_to e \<le> \<bar>x\<bar>" and "\<bar>x\<bar> < two_to (e + 1)" and "- 1022 \<le> e" and "e \<le> 1022"
    and "\<bar>x / two_to (e - 52) - of_int n\<bar> < 1 / 2"
  shows "to_f64 x = Finite (of_int n * two_to (e - 52))"
  using to_f64_eval [OF assms(1-4)] rne_nearest [OF assms(5)] by simp

text \<open>
  The float64 numbers of magnitude \<open>2^k\<close> or more are multiples of \<open>2^(k-52)\<close>.
\<close>

lemma representable_grid:
  assumes "representable x" and "two_to k \<le> \<bar>x\<bar>"
  shows "\<exists>j. x = of_int j * two_to (k - 52)"
proof -
  from assms(1) obtain m e where x: "x = of_int m * two_to e" and m: "\<bar>m\<bar> < 2 ^ 53"
    unfolding representable_def by blast
  have "k - 52 \<le> e"
  proof (rule ccontr)
    assume "\<not> k - 52 \<le> e"
    then have e: "e + 53 \<le> k" by simp
    have "\<bar>x\<bar> = of_int \<bar>m\<bar> * two_to e" by (simp add: x abs_mult)
    also have "\<dots> < of_int (2 ^ 53) * two_to e"
      using m by (intro mult_strict_right_mono) simp_all
    also have "\<dots> = two_to (53 + e)" by (simp add: two_to_add two_to_nat)
    also have "\<dots> \<le> two_to k" using e by (intro two_to_mono) simp
    finally show False using assms(2) by simp
  qed
  then have d: "0 \<le> e - (k - 52)" by simp
  have "two_to e = two_to ((e - (k - 52)) + (k - 52))" by simp
  also have "\<dots> = of_int (2 ^ nat (e - (k - 52))) * two_to (k - 52)"
    using d by (simp only: two_to_add two_to_nat)
  finally have "x = of_int (m * 2 ^ nat (e - (k - 52))) * two_to (k - 52)"
    by (simp add: x)
  then show ?thesis ..
qed

text \<open>
  A multiple of \<open>2^(k-52)\<close> of magnitude at most \<open>2^(k+1)\<close> is a float64.
\<close>

lemma grid_representable:
  assumes "x = of_int j * two_to (k - 52)" and "\<bar>x\<bar> \<le> two_to (k + 1)"
    and "- 1022 \<le> k" and "k \<le> 1022"
  shows "representable x"
proof (cases "\<bar>x\<bar> = two_to (k + 1)")
  case True
  have r: "representable (two_to (k + 1))" using assms(3,4) by (intro representable_two_to) simp_all
  from True have "x = two_to (k + 1) \<or> x = - two_to (k + 1)" by (simp add: abs_if split: if_splits)
  then show ?thesis using r representable_minus [OF r] by auto
next
  case False
  then have lt: "\<bar>x\<bar> < two_to (k + 1)" using assms(2) by simp
  have "\<bar>x\<bar> = of_int \<bar>j\<bar> * two_to (k - 52)" by (simp add: assms(1) abs_mult)
  moreover have "two_to (k + 1) = of_int (2 ^ 53) * two_to (k - 52)"
  proof -
    have "two_to (k + 1) = two_to (53 + (k - 52))" by (simp add: add.commute)
    also have "\<dots> = of_int (2 ^ 53) * two_to (k - 52)" by (simp only: two_to_add) (simp add: two_to_nat)
    finally show ?thesis .
  qed
  ultimately have "of_int \<bar>j\<bar> * two_to (k - 52) < of_int (2 ^ 53) * two_to (k - 52)"
    using lt by simp
  then have "(of_int \<bar>j\<bar> :: real) < of_int (2 ^ 53)"
    using two_to_pos [of "k - 52"] by (simp only: mult_less_cancel_right_pos)
  then have j: "\<bar>j\<bar> < 2 ^ 53" by (simp only: of_int_less_iff)
  show ?thesis
  proof (cases "k - 52 \<le> 971")
    case True
    show ?thesis using assms(1) j assms(3) True by (intro representableI [of x j "k - 52"]) simp_all
  next
    case False
    then show ?thesis using assms(4) by simp
  qed
qed

text \<open>
  Rounding half away from zero in exact arithmetic.
\<close>

lemma half_away_dist: "\<bar>of_int (half_away x) - x\<bar> \<le> 1 / 2"
proof (cases "x < 0")
  case True
  then have h: "half_away x = \<lceil>x - 1 / 2\<rceil>" by (simp add: half_away_def)
  have "real_of_int \<lceil>x - 1 / 2\<rceil> - 1 < x - 1 / 2" "x - 1 / 2 \<le> real_of_int \<lceil>x - 1 / 2\<rceil>"
    by linarith+
  then show ?thesis unfolding h by linarith
next
  case False
  then have h: "half_away x = \<lfloor>x + 1 / 2\<rfloor>" by (simp add: half_away_def)
  have "real_of_int \<lfloor>x + 1 / 2\<rfloor> \<le> x + 1 / 2" "x + 1 / 2 < real_of_int \<lfloor>x + 1 / 2\<rfloor> + 1"
    by linarith+
  then show ?thesis unfolding h by linarith
qed

lemma half_away_tie:
  assumes "\<bar>of_int (half_away x) - x\<bar> = 1 / 2"
  shows "\<bar>x\<bar> < \<bar>of_int (half_away x)\<bar>"
proof (cases "x < 0")
  case True
  then have h: "half_away x = \<lceil>x - 1 / 2\<rceil>" by (simp add: half_away_def)
  have "real_of_int \<lceil>x - 1 / 2\<rceil> - 1 < x - 1 / 2" "x - 1 / 2 \<le> real_of_int \<lceil>x - 1 / 2\<rceil>"
    by linarith+
  then show ?thesis using True assms unfolding h by linarith
next
  case False
  then have h: "half_away x = \<lfloor>x + 1 / 2\<rfloor>" by (simp add: half_away_def)
  have "real_of_int \<lfloor>x + 1 / 2\<rfloor> \<le> x + 1 / 2" "x + 1 / 2 < real_of_int \<lfloor>x + 1 / 2\<rfloor> + 1"
    by linarith+
  then show ?thesis using False assms unfolding h by linarith
qed

lemma half_away_minus: "x \<noteq> 0 \<Longrightarrow> half_away (- x) = - half_away x"
  unfolding half_away_def by (auto simp: ceiling_def algebra_simps)

text \<open>
  The sum \<open>x + 0.5\<close> of \<open>Round\<close> is rounded to a float64. For a non-negative
  float64 \<open>x\<close> below \<open>2^52\<close>, other than the largest one below \<open>0.5\<close>, the rounding
  does not move the sum across a whole number.
\<close>

lemma floor_of_rounded_sum:
  assumes rep: "representable x" and x0: "0 \<le> x" and xb: "x < 2 ^ 52"
    and ne: "x \<noteq> 1 / 2 - 1 / 2 ^ 54"
  shows "\<exists>y. to_f64 (x + 1 / 2) = Finite y \<and> \<lfloor>y\<rfloor> = \<lfloor>x + 1 / 2\<rfloor>"
proof -
  define s where "s = x + 1 / 2"
  define n where "n = \<lfloor>s\<rfloor>"
  have n0: "0 \<le> n" unfolding n_def s_def using x0 by simp
  have ns: "of_int n \<le> s" "s < of_int n + 1" unfolding n_def by linarith+
  have "s < 2 ^ 52 + 1" using xb by (simp add: s_def)
  then have "(of_int n :: real) < of_int (2 ^ 52 + 1)" using ns(1) by simp
  then have "n < 2 ^ 52 + 1" by (simp only: of_int_less_iff)
  then have nb: "n \<le> 2 ^ 52" by simp
  have repn: "representable (of_int n)" using n0 nb by (intro representable_of_int) simp
  have fin: "to_f64 s = Finite (round_real s)"
  proof (rule to_f64_finite)
    show "\<bar>s\<bar> \<le> two_to 53" using x0 xb by (simp add: s_def two_to_def)
  qed simp
  have lower: "of_int n \<le> round_real s"
    using round_real_mono [OF ns(1)] round_real_representable [OF repn] by simp
  have upper: "round_real s < of_int n + 1"
  proof -
    consider (tiny) "x < 1 / 4" | (small) "1 / 4 \<le> x" "x < 1 / 2"
      | (low) "1 / 2 \<le> x" "s \<le> of_int n + 1 / 2" | (high) "1 / 2 \<le> x" "of_int n + 1 / 2 < s"
      by linarith
    then show ?thesis
    proof cases
      case tiny
      have r: "representable (3 / 4)" using representable_dyadic [of 3 2] by simp
      have "s \<le> 3 / 4" using tiny by (simp add: s_def)
      then have "round_real s \<le> 3 / 4"
        using round_real_mono [of s "3 / 4"] round_real_representable [OF r] by simp
      moreover have "n = 0" unfolding n_def s_def using tiny x0 by (intro floor_unique) simp_all
      ultimately show ?thesis by simp
    next
      case small
      have "two_to (- 2) \<le> \<bar>x\<bar>" using small(1) by (simp add: two_to_def)
      from representable_grid [OF rep this] obtain j where j: "x = of_int j * two_to (- 54)"
        by auto
      then have xj: "x = of_int j / 2 ^ 54" by (simp add: two_to_def)
      have "of_int j / 2 ^ 54 < (1 / 2 :: real)" using small(2) xj by simp
      then have "(of_int j :: real) < of_int (2 ^ 53)" by (simp add: field_simps)
      then have "j < 2 ^ 53" by (simp only: of_int_less_iff)
      moreover have "j \<noteq> 2 ^ 53 - 1"
      proof
        assume "j = 2 ^ 53 - 1"
        then have "x = 1 / 2 - 1 / 2 ^ 54" by (simp add: xj field_simps)
        then show False using ne by simp
      qed
      ultimately have "j \<le> 2 ^ 53 - 2" by simp
      then have "(of_int j :: real) \<le> of_int (2 ^ 53 - 2)" by (simp only: of_int_le_iff)
      then have "x \<le> (2 ^ 53 - 2) / 2 ^ 54" by (simp add: xj field_simps)
      then have sb: "s \<le> of_int (2 ^ 53 - 1) / 2 ^ 53" by (simp add: s_def field_simps)
      have r: "representable (of_int (2 ^ 53 - 1) / 2 ^ 53)"
        by (intro representable_dyadic) simp_all
      have "round_real s \<le> of_int (2 ^ 53 - 1) / 2 ^ 53"
        using round_real_mono [OF sb] round_real_representable [OF r] by simp
      moreover have "n = 0" unfolding n_def s_def using small by (intro floor_unique) simp_all
      ultimately show ?thesis by simp
    next
      case low
      show ?thesis
      proof (cases "n = 2 ^ 52")
        case True
        have "two_to 51 \<le> \<bar>x\<bar>" using ns(1) True by (simp add: s_def two_to_def)
        from representable_grid [OF rep this] obtain j where j: "x = of_int j * two_to (- 1)"
          by auto
        then have xj: "x = of_int j / 2" by (simp add: two_to_def)
        have "s = of_int (j + 1) / 2" by (simp add: s_def xj field_simps)
        moreover have "of_int (j + 1) / 2 < (2 ^ 52 + 1 / 2 :: real)"
          using xb by (simp add: xj field_simps)
        then have "(of_int (j + 1) :: real) < of_int (2 ^ 53 + 1)" by (simp add: field_simps)
        then have "j + 1 < 2 ^ 53 + 1" by (simp only: of_int_less_iff)
        then have "j + 1 \<le> 2 ^ 53" by simp
        then have "(of_int (j + 1) :: real) \<le> of_int (2 ^ 53)" by (simp only: of_int_le_iff)
        ultimately have "s \<le> 2 ^ 52" by simp
        then have "s = of_int n" using ns(1) True by simp
        then have "round_real s = of_int n" using round_real_representable [OF repn] by simp
        then show ?thesis by simp
      next
        case False
        then have "n < 2 ^ 52" using nb by simp
        then have r: "representable (of_int (2 * n + 1) / 2 ^ 1)"
          using n0 by (intro representable_dyadic) simp_all
        have "s \<le> of_int (2 * n + 1) / 2 ^ 1" using low(2) by (simp add: field_simps)
        then have "round_real s \<le> of_int (2 * n + 1) / 2 ^ 1"
          using round_real_mono [of s "of_int (2 * n + 1) / 2 ^ 1"] round_real_representable [OF r]
          by simp
        then show ?thesis by (simp add: field_simps)
      qed
    next
      case high
      have xn: "of_int n < x" using high(2) by (simp add: s_def)
      have n1: "1 \<le> n"
      proof (rule ccontr)
        assume "\<not> 1 \<le> n"
        then have "n = 0" using n0 by simp
        then have "s < 1" using ns(2) by simp
        then show False using high(1) by (simp add: s_def)
      qed
      then have x1: "1 < x" using xn by (smt (verit) of_int_less_iff of_int_1 less_le_trans)
      define k where "k = expo x"
      have xne: "x \<noteq> 0" using x1 by simp
      have kb: "two_to k \<le> x" "x < two_to (k + 1)"
        using expo_bounds [OF xne] x0 by (simp_all add: k_def)
      have k0: "0 \<le> k"
        unfolding k_def using x1 expo_ge [of 0 x] by simp
      have k51: "k \<le> 51"
      proof -
        have "\<bar>x\<bar> < two_to 52" using x0 xb by (simp add: two_to_def)
        then have "expo x < 52" using xne by (intro expo_less)
        then show ?thesis by (simp add: k_def)
      qed
      have "two_to k \<le> \<bar>x\<bar>" using kb(1) x0 by simp
      from representable_grid [OF rep this] obtain j where j: "x = of_int j * two_to (k - 52)"
        by auto
      have half: "(1 / 2 :: real) = of_int (2 ^ nat (51 - k)) * two_to (k - 52)"
      proof -
        have "two_to (- 1) = two_to ((51 - k) + (k - 52))" by simp
        also have "\<dots> = of_int (2 ^ nat (51 - k)) * two_to (k - 52)"
          using k51 by (simp only: two_to_add two_to_nat)
        finally show ?thesis by (simp add: two_to_def)
      qed
      have sj: "s = of_int (j + 2 ^ nat (51 - k)) * two_to (k - 52)"
        unfolding s_def by (subst half, subst j) (simp add: algebra_simps)
      have "of_int n < two_to (k + 1)" using xn kb(2) by linarith
      then have "(of_int n :: real) < of_int (2 ^ nat (k + 1))" using k0 by (simp add: two_to_def)
      then have "n < 2 ^ nat (k + 1)" by (simp only: of_int_less_iff)
      then have "n + 1 \<le> 2 ^ nat (k + 1)" by simp
      then have "(of_int (n + 1) :: real) \<le> of_int (2 ^ nat (k + 1))" by (simp only: of_int_le_iff)
      then have "of_int n + 1 \<le> two_to (k + 1)" using k0 by (simp add: two_to_def)
      then have "\<bar>s\<bar> \<le> two_to (k + 1)" using ns(2) x0 by (simp add: s_def)
      then have "representable s"
      proof (rule grid_representable [OF sj])
        show "- 1022 \<le> k" using k0 by simp
        show "k \<le> 1022" using k51 by simp
      qed
      then have "round_real s = s" by (rule round_real_representable)
      then show ?thesis using ns(2) by simp
    qed
  qed
  have "\<lfloor>round_real s\<rfloor> = n" using lower upper by linarith
  then show ?thesis using fin by (simp add: s_def n_def)
qed

lemma Round_nonneg_exact:
  assumes "representable x" and "0 \<le> x" and "x < 2 ^ 52" and "x \<noteq> 1 / 2 - 1 / 2 ^ 54"
  shows "Round (Finite x) = Finite (of_int (half_away x))"
proof -
  from floor_of_rounded_sum [OF assms] obtain y where
    y: "to_f64 (x + 1 / 2) = Finite y" "\<lfloor>y\<rfloor> = \<lfloor>x + 1 / 2\<rfloor>" by blast
  have "Round (Finite x) = math_Floor (fadd (Finite x) (Finite (1 / 2)))"
    using assms(2) by (simp add: Round_def)
  also have "\<dots> = Finite (of_int \<lfloor>x + 1 / 2\<rfloor>)" by (simp only: fadd.simps y math_Floor.simps)
  finally show ?thesis using assms(2) by (simp add: half_away_def)
qed

lemma Round_neg_exact:
  assumes "representable x" and "x < 0" and "- (2 ^ 52) < x" and "x \<noteq> - (1 / 2 - 1 / 2 ^ 54)"
  shows "Round (Finite x) = Finite (of_int (half_away x))"
proof -
  have r: "representable (- x)" using assms(1) by (rule representable_minus)
  have ne: "- x \<noteq> 1 / 2 - 1 / 2 ^ 54" using assms(4) by linarith
  from floor_of_rounded_sum [OF r _ _ ne] assms(2,3) obtain y where
    y: "to_f64 (- x + 1 / 2) = Finite y" "\<lfloor>y\<rfloor> = \<lfloor>- x + 1 / 2\<rfloor>" by auto
  have "x + - (1 / 2) = - (- x + 1 / 2)" by simp
  then have "to_f64 (x + - (1 / 2)) = to_f64 (- (- x + 1 / 2))" by (simp only:)
  also have "\<dots> = fneg (to_f64 (- x + 1 / 2))" by (rule to_f64_minus)
  also have "\<dots> = Finite (- y)" by (simp only: y(1) fneg.simps)
  finally have t: "to_f64 (x + - (1 / 2)) = Finite (- y)" .
  have c: "\<lceil>- y\<rceil> = \<lceil>x - 1 / 2\<rceil>"
    using y(2) by (simp add: ceiling_def algebra_simps)
  have "Round (Finite x) = math_Ceil (fadd (Finite x) (Finite (- (1 / 2))))"
    using assms(2) by (simp add: Round_def fsub_def)
  also have "\<dots> = Finite (of_int \<lceil>x - 1 / 2\<rceil>)" by (simp only: fadd.simps t math_Ceil.simps c)
  finally show ?thesis using assms(2) by (simp add: half_away_def)
qed

text \<open>
  Claim C7, as the code has it. \<open>Round\<close> subtracts 0.5 from a negative input and
  takes the ceiling (rounding toward positive infinity); it adds 0.5 to any other
  input and takes the floor (rounding toward negative infinity). The sum and the
  difference are float64 operations, which round. For every float64 \<open>x\<close> of
  magnitude below \<open>2^52\<close>, except the largest float64 below 0.5 and its negative,
  the result is nevertheless the exact rounding half away from zero: it is at most
  0.5 away from the input, and at a tie it is the neighbour of larger magnitude,
  which banker's rounding would not always choose.
\<close>

theorem Round_half_away_from_zero:
  assumes "representable x" and "\<bar>x\<bar> < 2 ^ 52" and "\<bar>x\<bar> \<noteq> 1 / 2 - 1 / 2 ^ 54"
  shows "Round (Finite x) = Finite (of_int (half_away x))
       \<and> half_away x = (if x < 0 then \<lceil>x - 1 / 2\<rceil> else \<lfloor>x + 1 / 2\<rfloor>)
       \<and> \<bar>of_int (half_away x) - x\<bar> \<le> 1 / 2
       \<and> (\<bar>of_int (half_away x) - x\<bar> = 1 / 2 \<longrightarrow> \<bar>x\<bar> < \<bar>of_int (half_away x)\<bar>)"
proof -
  have e: "Round (Finite x) = Finite (of_int (half_away x))"
  proof (cases "x < 0")
    case True
    then show ?thesis using assms by (intro Round_neg_exact) (simp_all add: abs_if)
  next
    case False
    then show ?thesis using assms by (intro Round_nonneg_exact) (simp_all add: abs_if)
  qed
  show ?thesis
    using e half_away_dist [of x] half_away_tie [of x] by (simp add: half_away_def)
qed

text \<open>
  At the ties \<open>2.5\<close> and \<open>-2.5\<close> the results are \<open>3\<close> and \<open>-3\<close>, where
  banker's rounding gives \<open>2\<close> and \<open>-2\<close>.
\<close>

theorem Round_half_away_from_zero_witness:
  "representable (5 / 2) \<and> \<bar>5 / 2 :: real\<bar> < 2 ^ 52 \<and> \<bar>5 / 2 :: real\<bar> \<noteq> 1 / 2 - 1 / 2 ^ 54
   \<and> Round (Finite (5 / 2)) = Finite 3 \<and> Round (Finite (- (5 / 2))) = Finite (- 3)
   \<and> \<bar>of_int (half_away (5 / 2)) - 5 / 2\<bar> = (1 / 2 :: real)
   \<and> \<bar>5 / 2 :: real\<bar> < \<bar>of_int (half_away (5 / 2))\<bar>"
proof -
  have r: "representable (5 / 2)" using representable_dyadic [of 5 1] by simp
  have r': "representable (- (5 / 2))" using representable_minus [OF r] by simp
  have h: "half_away (5 / 2) = 3" "half_away (- (5 / 2)) = - 3" by (simp_all add: half_away_def)
  show ?thesis
    using Round_half_away_from_zero [of "5 / 2"] Round_half_away_from_zero [of "- (5 / 2)"] r r'
    by (simp add: h)
qed

text \<open>
  The two kinds of float64 that the theorem leaves out. At the largest float64
  below 0.5 the sum \<open>x + 0.5\<close> is halfway between two float64 and is rounded up to
  1: \<open>Round\<close> returns 1, the rounding half away from zero is 0. At the odd number
  \<open>2^52 + 1\<close> the sum is halfway between two float64 as well: \<open>Round\<close> returns
  \<open>2^52 + 2\<close>.
\<close>

lemma to_f64_below_one: "to_f64 (1 / 2 - 1 / 2 ^ 54 + 1 / 2) = Finite 1"
proof -
  have "to_f64 (1 - 1 / 2 ^ 54) = Finite (of_int (rne ((1 - 1 / 2 ^ 54) / two_to (- 1 - 52))) * two_to (- 1 - 52))"
    by (rule to_f64_eval) (simp_all add: two_to_def)
  moreover have "rne ((1 - 1 / 2 ^ 54) / two_to (- 1 - 52)) = 2 ^ 53"
    by (simp add: two_to_def rne_def Let_def)
  ultimately show ?thesis by (simp add: two_to_def)
qed

lemma Round_below_half: "Round (Finite (1 / 2 - 1 / 2 ^ 54)) = Finite 1"
proof -
  have "Round (Finite (1 / 2 - 1 / 2 ^ 54))
          = math_Floor (fadd (Finite (1 / 2 - 1 / 2 ^ 54)) (Finite (1 / 2)))"
    by (simp add: Round_def)
  also have "\<dots> = math_Floor (Finite 1)" by (simp only: fadd.simps to_f64_below_one)
  finally show ?thesis by simp
qed

lemma to_f64_odd_sum: "to_f64 (2 ^ 52 + 1 + 1 / 2) = Finite (2 ^ 52 + 2)"
proof -
  have "to_f64 (2 ^ 52 + 1 + 1 / 2)
          = Finite (of_int (rne ((2 ^ 52 + 1 + 1 / 2) / two_to (52 - 52))) * two_to (52 - 52))"
    by (rule to_f64_eval) (simp_all add: two_to_def)
  moreover have "rne ((2 ^ 52 + 1 + 1 / 2) / two_to (52 - 52)) = 2 ^ 52 + 2"
    by (simp add: two_to_def rne_def Let_def)
  ultimately show ?thesis by (simp add: two_to_def)
qed

lemma Round_odd: "Round (Finite (2 ^ 52 + 1)) = Finite (2 ^ 52 + 2)"
proof -
  have "Round (Finite (2 ^ 52 + 1)) = math_Floor (fadd (Finite (2 ^ 52 + 1)) (Finite (1 / 2)))"
    by (simp add: Round_def)
  also have "\<dots> = math_Floor (Finite (2 ^ 52 + 2))" by (simp only: fadd.simps to_f64_odd_sum)
  finally show ?thesis by simp
qed

lemma Round_quarters:
  "Round (Finite (- (5 / 4))) = Finite (- 1)" "Round (Finite (5 / 4)) = Finite 1"
proof -
  have r: "representable (7 / 4)" using representable_dyadic [of 7 2] by simp
  have a: "to_f64 (7 / 4) = Finite (7 / 4)" using r by (rule to_f64_exact)
  have b: "to_f64 (- (7 / 4)) = Finite (- (7 / 4))"
    using representable_minus [OF r] by (rule to_f64_exact)
  show "Round (Finite (- (5 / 4))) = Finite (- 1)" by (simp add: Round_def fsub_def b)
  show "Round (Finite (5 / 4)) = Finite 1" by (simp add: Round_def a)
qed

text \<open>
  The directions as the specification words them (negative inputs toward negative
  infinity, non-negative inputs toward positive infinity) do not describe the code:
  at \<open>-1.25\<close> the code returns \<open>-1\<close>, not \<open>-2\<close>, and at \<open>1.25\<close> it returns
  \<open>1\<close>, not \<open>2\<close>. And at the float64 \<open>0.49999999999999994\<close> the result 1 is not
  the rounding half away from zero, which is 0.
\<close>

theorem Round_direction_counterexample:
  "Round (Finite (- (5 / 4))) = Finite (- 1)
   \<and> Finite (- 1) \<noteq> Finite (of_int \<lfloor>- (5 / 4) - 0.5 :: real\<rfloor>)
   \<and> Round (Finite (5 / 4)) = Finite 1
   \<and> Finite 1 \<noteq> Finite (of_int \<lceil>5 / 4 + 0.5 :: real\<rceil>)
   \<and> Round (Finite (1 / 2 - 1 / 2 ^ 54)) = Finite 1
   \<and> half_away (1 / 2 - 1 / 2 ^ 54) = 0"
proof -
  have "\<lfloor>- (5 / 4) - 0.5 :: real\<rfloor> = - 2" by (simp add: floor_unique)
  moreover have "\<lceil>5 / 4 + 0.5 :: real\<rceil> = 2" by (simp add: ceiling_unique)
  moreover have "half_away (1 / 2 - 1 / 2 ^ 54) = 0" by (simp add: half_away_def floor_unique)
  ultimately show ?thesis using Round_quarters Round_below_half by simp
qed

section \<open>URL templating: the three passes are one substitution\<close>

lemma digit_char_plain: "d < 10 \<Longrightarrow> digit_char d \<in> digit_chars"
  unfolding digit_char_def digit_chars_def by (intro nth_mem) simp

lemma digits_plain: "digits n \<noteq> [] \<and> set (digits n) \<subseteq> digit_chars"
proof (induction n rule: digits.induct)
  case (1 n)
  show ?case
  proof (cases "n < 10")
    case True
    then have eq: "digits n = [digit_char n]" by (subst digits.simps) simp
    show ?thesis unfolding eq using digit_char_plain [OF True] by simp
  next
    case False
    then have eq: "digits n = digits (n div 10) @ [digit_char (n mod 10)]"
      by (subst digits.simps) simp
    have "n mod 10 < 10" by simp
    then have "digit_char (n mod 10) \<in> digit_chars" by (rule digit_char_plain)
    then show ?thesis unfolding eq using "1.IH" [OF False] by simp
  qed
qed

lemma plain_Itoa: "plain (Itoa i)"
proof -
  have sub: "digit_chars \<subseteq> set ''-0123456789''" unfolding digit_chars_def by (simp add: subset_insertI2)
  show ?thesis
  proof (cases "i < 0")
    case True
    have "set (digits (nat (- i))) \<subseteq> set ''-0123456789''"
      using digits_plain [of "nat (- i)"] sub by blast
    then show ?thesis using True by (simp add: plain_def Itoa_def)
  next
    case False
    have "set (digits (nat i)) \<subseteq> set ''-0123456789''" "digits (nat i) \<noteq> []"
      using digits_plain [of "nat i"] sub by blast+
    then show ?thesis using False by (simp add: plain_def Itoa_def)
  qed
qed

lemma substitute_skip:
  "\<not> (\<exists>b rest. s = b # CHR ''}'' # rest \<and> a = CHR ''{'' \<and> m b \<noteq> None)
   \<Longrightarrow> substitute m (a # s) = a # substitute m s"
proof (cases s)
  case Nil
  then show ?thesis by simp
next
  case c2: (Cons b s2)
  assume h: "\<not> (\<exists>b rest. s = b # CHR ''}'' # rest \<and> a = CHR ''{'' \<and> m b \<noteq> None)"
  show ?thesis
  proof (cases s2)
    case Nil
    then show ?thesis by (simp add: c2)
  next
    case c3: (Cons c rest)
    show ?thesis using h unfolding c2 c3 by (cases "m b") auto
  qed
qed

lemma substitute_token: "m k = Some v \<Longrightarrow> substitute m (CHR ''{'' # k # CHR ''}'' # rest) = v @ substitute m rest"
  by simp

lemma replace_from_all:
  "n < 0 \<Longrightarrow> replace_from s [CHR ''{'', k, CHR ''}''] new n = substitute (bind k new no_token) s"
proof (induction s arbitrary: n rule: length_induct)
  case (1 s)
  note IH = "1.IH" [rule_format]
  let ?m = "bind k new no_token"
  have mk: "?m k = Some new" by (simp add: bind_def)
  show ?case
  proof (cases s)
    case Nil
    then show ?thesis by (simp add: replace_from.simps)
  next
    case (Cons a s1)
    show ?thesis
    proof (cases "prefix [CHR ''{'', k, CHR ''}''] s")
      case True
      then obtain rest where s: "s = CHR ''{'' # k # CHR ''}'' # rest"
        by (auto simp: prefix_def)
      have "replace_from rest [CHR ''{'', k, CHR ''}''] new (n - 1) = substitute ?m rest"
        using "1.prems" by (intro IH) (simp_all add: s)
      moreover have "replace_from s [CHR ''{'', k, CHR ''}''] new n
          = new @ replace_from rest [CHR ''{'', k, CHR ''}''] new (n - 1)"
        unfolding s using "1.prems" by (subst replace_from.simps) simp
      ultimately show ?thesis unfolding s using substitute_token [of "bind k new no_token" k new rest, OF mk] by simp
    next
      case False
      have r: "replace_from s1 [CHR ''{'', k, CHR ''}''] new n = substitute ?m s1"
        using "1.prems" by (intro IH) (simp_all add: Cons)
      have "\<not> (\<exists>b rest. s1 = b # CHR ''}'' # rest \<and> a = CHR ''{'' \<and> ?m b \<noteq> None)"
        using False unfolding Cons by (auto simp: bind_def no_token_def split: if_splits)
      then have "substitute ?m (a # s1) = a # substitute ?m s1" by (rule substitute_skip)
      moreover have "replace_from (a # s1) [CHR ''{'', k, CHR ''}''] new n
          = a # replace_from s1 [CHR ''{'', k, CHR ''}''] new n"
        using False "1.prems" unfolding Cons by (subst replace_from.simps) auto
      ultimately show ?thesis unfolding Cons using r by simp
    qed
  qed
qed

lemma Replace_token:
  assumes "plain new"
  shows "Replace s [CHR ''{'', k, CHR ''}''] new (- 1) = substitute (bind k new no_token) s"
proof -
  have "CHR ''{'' \<notin> set new" using assms by (auto simp: plain_def)
  moreover have "CHR ''{'' \<in> set [CHR ''{'', k, CHR ''}'']" by simp
  ultimately have ne: "[CHR ''{'', k, CHR ''}''] \<noteq> new" by metis
  have "replace_from s [CHR ''{'', k, CHR ''}''] new (- 1) = substitute (bind k new no_token) s"
    by (rule replace_from_all) simp
  then show ?thesis using ne by (simp add: Replace_def)
qed

lemma plain_hd:
  assumes "plain v"
  obtains c v' where "v = c # v'" "c \<in> set ''-0123456789''"
  using assms by (cases v) (auto simp: plain_def)

lemma plain_no_brace: "plain v \<Longrightarrow> CHR ''{'' \<notin> set v"
  by (auto simp: plain_def)

lemma substitute_through:
  "CHR ''{'' \<notin> set v \<Longrightarrow> substitute m (v @ r) = v @ substitute m r"
proof (induction v)
  case Nil
  then show ?case by simp
next
  case (Cons c v)
  then have "c \<noteq> CHR ''{''" by auto
  then have "substitute m (c # (v @ r)) = c # substitute m (v @ r)" by (intro substitute_skip) simp
  then show ?case using Cons by simp
qed

lemma substitute_head:
  assumes "wf_map m" and "ch \<notin> set ''-0123456789''" and "substitute m s = ch # r"
  shows "\<exists>r'. s = ch # r'"
proof (cases "\<exists>b rest v. s = CHR ''{'' # b # CHR ''}'' # rest \<and> m b = Some v")
  case True
  then obtain b rest v where s: "s = CHR ''{'' # b # CHR ''}'' # rest" and mb: "m b = Some v"
    by blast
  have "plain v" using assms(1) mb by (auto simp: wf_map_def)
  then obtain c v' where v: "v = c # v'" "c \<in> set ''-0123456789''" by (rule plain_hd)
  have "substitute m s = v @ substitute m rest" unfolding s using mb by simp
  then have "ch = c" using assms(3) v by simp
  then show ?thesis using assms(2) v(2) by simp
next
  case False
  show ?thesis
  proof (cases s)
    case Nil
    then show ?thesis using assms(3) by simp
  next
    case (Cons a s1)
    have "substitute m (a # s1) = a # substitute m s1"
      using False unfolding Cons by (intro substitute_skip) auto
    then show ?thesis using assms(3) Cons by simp
  qed
qed

lemma substitute_starts_token:
  assumes "wf_map m" and "key_ok k" and "substitute m s = k # CHR ''}'' # r"
  shows "\<exists>r'. s = k # CHR ''}'' # r'"
proof -
  have k: "k \<notin> set ''-0123456789''" "k \<noteq> CHR ''{''" using assms(2) by (auto simp: key_ok_def)
  from substitute_head [OF assms(1) k(1) assms(3)] obtain s1 where s: "s = k # s1" by blast
  have "substitute m (k # s1) = k # substitute m s1" using k(2) by (intro substitute_skip) simp
  then have "substitute m s1 = CHR ''}'' # r" using assms(3) s by simp
  moreover have "CHR ''}'' \<notin> set ''-0123456789''" by simp
  ultimately obtain s2 where "s1 = CHR ''}'' # s2" using substitute_head [OF assms(1)] by blast
  then show ?thesis using s by simp
qed

lemma substitute_fuse:
  assumes "wf_map m" and "m k = None" and "key_ok k" and "plain new"
  shows "substitute (bind k new no_token) (substitute m s) = substitute (bind k new m) s"
proof (induction s rule: length_induct)
  case (1 s)
  note IH = "1.IH" [rule_format]
  let ?k = "bind k new no_token" and ?m' = "bind k new m"
  have kk: "?k k = Some new" "?m' k = Some new" by (simp_all add: bind_def)
  have k: "k \<noteq> CHR ''{''" "k \<noteq> CHR ''}''" using assms(3) by (auto simp: key_ok_def)
  consider
    (tok_m) b rest v where "s = CHR ''{'' # b # CHR ''}'' # rest" "m b = Some v"
  | (tok_k) rest where "s = CHR ''{'' # k # CHR ''}'' # rest"
  | (nil) "s = []"
  | (skip) a s1 where "s = a # s1"
      "\<not> (\<exists>b rest. s1 = b # CHR ''}'' # rest \<and> a = CHR ''{'' \<and> ?m' b \<noteq> None)"
  proof (cases s)
    case Nil
    then show ?thesis using nil by simp
  next
    case (Cons a s1)
    show ?thesis
    proof (cases "\<exists>b rest. s1 = b # CHR ''}'' # rest \<and> a = CHR ''{'' \<and> ?m' b \<noteq> None")
      case True
      then obtain b rest where s1: "s1 = b # CHR ''}'' # rest" "a = CHR ''{''" "?m' b \<noteq> None"
        by blast
      show ?thesis
      proof (cases "b = k")
        case True
        then show ?thesis using tok_k Cons s1 by simp
      next
        case False
        then obtain v where "m b = Some v" using s1(3) by (auto simp: bind_def)
        then show ?thesis using tok_m Cons s1 by simp
      qed
    next
      case False
      then show ?thesis using skip Cons by simp
    qed
  qed
  then show ?case
  proof cases
    case tok_m
    have bk: "b \<noteq> k" using tok_m(2) assms(2) by auto
    have v: "CHR ''{'' \<notin> set v" using assms(1) tok_m(2) by (auto simp: wf_map_def plain_no_brace)
    have "substitute m s = v @ substitute m rest" unfolding tok_m(1) using tok_m(2) by simp
    then have "substitute ?k (substitute m s) = v @ substitute ?k (substitute m rest)" by (simp add: substitute_through [OF v])
    also have "substitute ?k (substitute m rest) = substitute ?m' rest" by (intro IH) (simp add: tok_m(1))
    also have "v @ substitute ?m' rest = substitute ?m' s"
      unfolding tok_m(1) using tok_m(2) bk by (simp add: bind_def)
    finally show ?thesis .
  next
    case tok_k
    have "substitute m (CHR ''{'' # k # CHR ''}'' # rest) = CHR ''{'' # substitute m (k # CHR ''}'' # rest)"
      using assms(2) by (intro substitute_skip) simp
    also have "substitute m (k # CHR ''}'' # rest) = k # substitute m (CHR ''}'' # rest)"
      using k by (intro substitute_skip) simp
    also have "substitute m (CHR ''}'' # rest) = CHR ''}'' # substitute m rest"
      by (intro substitute_skip) simp
    finally have "substitute m s = CHR ''{'' # k # CHR ''}'' # substitute m rest" unfolding tok_k .
    then have "substitute ?k (substitute m s) = new @ substitute ?k (substitute m rest)" using kk(1) by simp
    also have "substitute ?k (substitute m rest) = substitute ?m' rest" by (intro IH) (simp add: tok_k)
    also have "new @ substitute ?m' rest = substitute ?m' s" unfolding tok_k using kk(2) by simp
    finally show ?thesis .
  next
    case nil
    then show ?thesis by simp
  next
    case skip
    have m_skip: "\<not> (\<exists>b rest. s1 = b # CHR ''}'' # rest \<and> a = CHR ''{'' \<and> m b \<noteq> None)"
      using skip(2) by (auto simp: bind_def split: if_splits)
    have ms: "substitute m s = a # substitute m s1" unfolding skip(1) using m_skip by (rule substitute_skip)
    have "\<not> (\<exists>b rest. substitute m s1 = b # CHR ''}'' # rest \<and> a = CHR ''{'' \<and> ?k b \<noteq> None)"
    proof
      assume "\<exists>b rest. substitute m s1 = b # CHR ''}'' # rest \<and> a = CHR ''{'' \<and> ?k b \<noteq> None"
      then obtain b rest where h: "substitute m s1 = b # CHR ''}'' # rest" "a = CHR ''{''" "?k b \<noteq> None"
        by blast
      then have "b = k" by (auto simp: bind_def no_token_def split: if_splits)
      then obtain r' where "s1 = k # CHR ''}'' # r'"
        using substitute_starts_token [OF assms(1,3)] h(1) by blast
      then show False using skip(2) h(2) kk(2) by simp
    qed
    then have "substitute ?k (a # substitute m s1) = a # substitute ?k (substitute m s1)" by (rule substitute_skip)
    also have "substitute ?k (substitute m s1) = substitute ?m' s1" by (intro IH) (simp add: skip(1))
    also have "a # substitute ?m' s1 = substitute ?m' s"
      unfolding skip(1) using skip(2) by (rule substitute_skip [symmetric])
    finally show ?thesis unfolding ms .
  qed
qed

lemma wf_no_token: "wf_map no_token"
  by (simp add: wf_map_def no_token_def)

lemma wf_bind: "wf_map m \<Longrightarrow> key_ok k \<Longrightarrow> plain v \<Longrightarrow> wf_map (bind k v m)"
  by (simp add: wf_map_def bind_def)

lemma key_ok_xyz: "key_ok (CHR ''x'')" "key_ok (CHR ''y'')" "key_ok (CHR ''z'')"
  by (simp_all add: key_ok_def)

lemma getTileUrl_subst: "getTileUrl zv xv yv t = substitute (placeholders zv xv yv) t"
proof -
  let ?mx = "bind (CHR ''x'') (Itoa xv) no_token"
  let ?mxy = "bind (CHR ''y'') (Itoa yv) ?mx"
  have wx: "wf_map ?mx" by (intro wf_bind wf_no_token key_ok_xyz plain_Itoa)
  have wxy: "wf_map ?mxy" by (intro wf_bind wf_no_token key_ok_xyz plain_Itoa)
  have nx: "?mx (CHR ''y'') = None" by (simp add: bind_def no_token_def)
  have nxy: "?mxy (CHR ''z'') = None" by (simp add: bind_def no_token_def)
  have "getTileUrl zv xv yv t =
        substitute (bind (CHR ''z'') (Itoa zv) no_token)
          (substitute (bind (CHR ''y'') (Itoa yv) no_token) (substitute ?mx t))"
    by (simp add: getTileUrl_def Let_def Replace_token [OF plain_Itoa])
  also have "substitute (bind (CHR ''y'') (Itoa yv) no_token) (substitute ?mx t) = substitute ?mxy t"
    by (rule substitute_fuse [OF wx nx key_ok_xyz(2) plain_Itoa])
  also have "substitute (bind (CHR ''z'') (Itoa zv) no_token) (substitute ?mxy t)
             = substitute (bind (CHR ''z'') (Itoa zv) ?mxy) t"
    by (rule substitute_fuse [OF wxy nxy key_ok_xyz(3) plain_Itoa])
  finally show ?thesis by (simp add: placeholders_def)
qed

lemma has_token_Cons: "has_token k s \<Longrightarrow> has_token k (a # s)"
  by (cases "(k, s)" rule: has_token.cases) simp_all

lemma substitute_absent: "\<not> has_token k s \<Longrightarrow> substitute m s = substitute (m(k := None)) s"
proof (induction m s rule: substitute.induct)
  case (1 m a b c rest)
  have bk: "a = CHR ''{'' \<and> c = CHR ''}'' \<Longrightarrow> b \<noteq> k" using "1.prems" by auto
  have nt: "\<not> has_token k (b # c # rest)" using "1.prems" by simp
  show ?case
  proof (cases "a = CHR ''{'' \<and> c = CHR ''}''")
    case True
    note bk' = bk [OF True]
    show ?thesis
    proof (cases "m b")
      case None
      then show ?thesis using True bk' "1.IH"(1) [OF True None nt] by simp
    next
      case (Some v)
      have "\<not> has_token k rest" using nt has_token_Cons by blast
      then show ?thesis using True bk' Some "1.IH"(2) [OF True Some] by simp
    qed
  next
    case False
    then show ?thesis using "1.IH"(3) [OF False nt] by auto
  qed
qed simp_all

lemma substitute_none: "(\<And>b. m b = None) \<Longrightarrow> substitute m s = s"
  by (induction m s rule: substitute.induct) auto

text \<open>
  Claim C5, as the code has it: \<open>getTileUrl\<close> replaces every occurrence of each
  of the placeholders \<open>{x}\<close>, \<open>{y}\<close>, \<open>{z}\<close> by the decimal text of the
  corresponding integer. The three successive passes of the code equal one pass
  from the left over the template (\<open>substitute\<close>), so each occurrence is replaced once,
  no inserted text is replaced again, and the order of the placeholders in the
  template is immaterial. A placeholder that does not occur contributes nothing
  (its entry can be removed from the table), and a template without any of the
  three placeholders is returned unchanged.
\<close>

theorem getTileUrl_substitutes:
  "getTileUrl zv xv yv t = substitute (placeholders zv xv yv) t
   \<and> (\<forall>k. \<not> has_token k t \<longrightarrow>
          getTileUrl zv xv yv t = substitute ((placeholders zv xv yv)(k := None)) t)
   \<and> (\<not> has_token (CHR ''x'') t \<and> \<not> has_token (CHR ''y'') t \<and> \<not> has_token (CHR ''z'') t
        \<longrightarrow> getTileUrl zv xv yv t = t)"
proof -
  have a: "getTileUrl zv xv yv t = substitute (placeholders zv xv yv) t" by (rule getTileUrl_subst)
  have b: "\<not> has_token k t \<Longrightarrow>
           getTileUrl zv xv yv t = substitute ((placeholders zv xv yv)(k := None)) t" for k
    unfolding a by (rule substitute_absent)
  have c: "getTileUrl zv xv yv t = t"
    if h: "\<not> has_token (CHR ''x'') t \<and> \<not> has_token (CHR ''y'') t \<and> \<not> has_token (CHR ''z'') t"
  proof -
    let ?m = "placeholders zv xv yv"
    have "substitute ?m t = substitute (?m(CHR ''x'' := None)) t" using h by (intro substitute_absent) simp
    also have "\<dots> = substitute (?m(CHR ''x'' := None, CHR ''y'' := None)) t"
      using h by (intro substitute_absent) simp
    also have "\<dots> = substitute (?m(CHR ''x'' := None, CHR ''y'' := None, CHR ''z'' := None)) t"
      using h by (intro substitute_absent) simp
    also have "\<dots> = t" by (intro substitute_none) (simp add: placeholders_def bind_def no_token_def)
    finally show ?thesis unfolding a .
  qed
  show ?thesis using a b c by blast
qed

text \<open>
  The example of the specification, a template without \<open>{y}\<close>, and a template
  without any placeholder.
\<close>

theorem getTileUrl_substitutes_witness:
  "getTileUrl 4 2 1 ''.../{z}/{x}/{y}.png'' = ''.../4/2/1.png''
   \<and> getTileUrl 4 2 1 ''&x={x}&z={z}'' = ''&x=2&z=4''
   \<and> \<not> has_token (CHR ''y'') ''&x={x}&z={z}''
   \<and> getTileUrl 4 2 1 ''plain.png'' = ''plain.png''"
proof -
  have 1: "substitute (placeholders 4 2 1) ''.../{z}/{x}/{y}.png'' = ''.../4/2/1.png''" by code_simp
  have 2: "\<not> has_token (CHR ''y'') ''&x={x}&z={z}''" by code_simp
  have 3: "substitute ((placeholders 4 2 1)(CHR ''y'' := None)) ''&x={x}&z={z}'' = ''&x=2&z=4''"
    by code_simp
  have 4: "\<not> has_token (CHR ''x'') ''plain.png'' \<and> \<not> has_token (CHR ''y'') ''plain.png''
           \<and> \<not> has_token (CHR ''z'') ''plain.png''" by code_simp
  show ?thesis
    using getTileUrl_substitutes [of 4 2 1 "''.../{z}/{x}/{y}.png''"]
      getTileUrl_substitutes [of 4 2 1 "''&x={x}&z={z}''"]
      getTileUrl_substitutes [of 4 2 1 "''plain.png''"] 1 2 3 4
    by metis
qed

text \<open>
  "Exactly once each" does not hold for a template that repeats a placeholder: the
  code calls \<open>strings.Replace\<close> with \<open>n = -1\<close> and replaces both occurrences of
  \<open>{x}\<close>, where one replacement per placeholder (\<open>n = 1\<close>) would leave the second.
\<close>

theorem getTileUrl_once_counterexample:
  "getTileUrl 4 2 1 ''{x}/{x}'' = ''2/2''
   \<and> Replace (Replace (Replace ''{x}/{x}'' ''{x}'' (Itoa 2) 1) ''{y}'' (Itoa 1) 1)
        ''{z}'' (Itoa 4) 1 = ''2/{x}''"
  by code_simp

section \<open>The store and the writer\<close>

lemma int64_id: "- (2 ^ 63) \<le> i \<Longrightarrow> i < 2 ^ 63 \<Longrightarrow> int64 i = i"
  by (simp add: int64_def)

lemma flipped_y_eq:
  assumes "0 \<le> tile_z t" and "tile_z t \<le> 62"
    and "- (2 ^ 62) \<le> tile_y t" and "tile_y t \<le> 2 ^ 62"
  shows "flipped_y t = 2 ^ nat (tile_z t) - 1 - tile_y t"
proof -
  let ?n = "nat (tile_z t)"
  have p: "math_Pow2 (float64_of_int (tile_z t)) = Finite (2 ^ ?n)"
    using assms(1,2) by (simp add: two_power_zoom)
  have "(2::int) ^ ?n \<le> 2 ^ 62" using assms(2) by (intro power_increasing) simp_all
  then have b: "(2::int) ^ ?n \<le> 4611686018427387904" by simp
  have b0: "(0::int) \<le> 2 ^ ?n" by (rule zero_le_power) simp
  have y: "- 4611686018427387904 \<le> tile_y t" "tile_y t \<le> 4611686018427387904"
    using assms(3,4) by simp_all
  have "(2::real) ^ ?n = of_int (2 ^ ?n)" by simp
  then have fl: "\<lfloor>(2::real) ^ ?n\<rfloor> = 2 ^ ?n" by (simp only: floor_of_int)
  have r0: "- 9223372036854775808 \<le> (2::int) ^ ?n" "(2::int) ^ ?n < 9223372036854775808"
    using b b0 by linarith+
  then have g: "go_int (Finite (2 ^ ?n)) = 2 ^ ?n"
    by (simp add: fl Let_def MinInt64_def)
  have r1: "- 9223372036854775808 \<le> (2::int) ^ ?n - 1" "(2::int) ^ ?n - 1 < 9223372036854775808"
    using b b0 by linarith+
  then have i1: "int64 (2 ^ ?n - 1) = 2 ^ ?n - 1" by (intro int64_id) simp_all
  have r2: "- 9223372036854775808 \<le> (2::int) ^ ?n - 1 - tile_y t"
    "(2::int) ^ ?n - 1 - tile_y t < 9223372036854775808"
    using b b0 y by linarith+
  then have i2: "int64 (2 ^ ?n - 1 - tile_y t) = 2 ^ ?n - 1 - tile_y t"
    by (intro int64_id) simp_all
  show ?thesis by (simp add: flipped_y_def p g i1 i2 Let_def del: go_int.simps)
qed

text \<open>
  In \<open>src/mbutil.go\<close> the stored row is \<open>2^zoom - 1 - row\<close> for every tile of a
  zoom level up to 62; the enumeration itself never flips: the rows it emits are
  the raw rows of the projected range.
\<close>

lemma addToMBTile_row:
  assumes "0 \<le> tile_z t" and "tile_z t \<le> 62" and "- (2 ^ 62) \<le> tile_y t" and "tile_y t \<le> 2 ^ 62"
    and "addToMBTile t db = Inr db'"
  shows "db' = db((tile_z t, tile_x t, 2 ^ nat (tile_z t) - 1 - tile_y t) \<mapsto> Content t)
       \<and> db (tile_z t, tile_x t, 2 ^ nat (tile_z t) - 1 - tile_y t) = None"
  using assms(5) unfolding addToMBTile_def insert_tile_def flipped_y_eq [OF assms(1-4)]
  by (auto split: if_splits)

lemma flipped_y_5_10: "flipped_y (mkTile 5 3 10) = 21"
  using flipped_y_eq [of "mkTile 5 3 10"] by (simp add: mkTile_def)

text \<open>
  Claim C2 at the tile \<open>(z=5, x=3, y=10)\<close>: \<open>addToMBTile\<close> of \<open>src/mbutil.go\<close>
  stores it under row \<open>2^5 - 1 - 10 = 21\<close>, but \<open>addToMBTile\<close> of the first program of
  \<open>part_000\<close> stores it under row 10, unflipped.
\<close>

theorem addToMBTile_gosm_unflipped:
  "addToMBTile_gosm (mkTile 5 3 10) Map.empty = Inr [(5, 3, 10) \<mapsto> []]
   \<and> addToMBTile (mkTile 5 3 10) Map.empty = Inr [(5, 3, 21) \<mapsto> []]"
  by (simp add: addToMBTile_gosm_def addToMBTile_def insert_tile_def flipped_y_5_10)
     (simp add: mkTile_def)

section \<open>The preparation of the archive\<close>

lemma os_Remove_frame: "p \<noteq> name \<Longrightarrow> fst (os_Remove env fs name) p = fs p"
  by (simp add: os_Remove_def split: option.splits)

lemma os_Remove_file: "fst (os_Remove env fs name) name = (if remove_fails env then fs name else None)"
  by (simp add: os_Remove_def split: option.splits)



lemma prepareDatabase_handle:
  "prepareDatabase env fs filename = (fs', Inr db) \<Longrightarrow>
     db = filename \<and> fs' filename = Some (surviving env fs filename)"
  by (auto simp: prepareDatabase_def os_Remove_def sql_Open_def surviving_def Let_def
      split: sum.splits option.splits prod.splits if_splits)

lemma surviving_removed: "\<not> remove_fails env \<Longrightarrow> surviving env fs filename = Map.empty"
  by (simp add: surviving_def split: option.splits)

lemma surviving_absent: "fs filename = None \<Longrightarrow> surviving env fs filename = Map.empty"
  by (simp add: surviving_def)

lemma surviving_kept:
  "remove_fails env \<Longrightarrow> fs filename = Some old \<Longrightarrow> surviving env fs filename = old"
  by (simp add: surviving_def)


lemma env_ok_prepare:
  "prepareDatabase env_ok fs filename = (fs(filename \<mapsto> Map.empty), Inr filename)"
  by (simp add: prepareDatabase_def os_Remove_def sql_Open_def optimizeConnection_def
      env_ok_def Let_def split: option.splits)

lemma env_stuck_prepare:
  "fs filename = Some old \<Longrightarrow> prepareDatabase env_stuck fs filename = (fs, Inr filename)"
  by (simp add: prepareDatabase_def os_Remove_def sql_Open_def optimizeConnection_def
      env_stuck_def Let_def)



section \<open>The pipeline\<close>

lemma held_replicate [simp]: "held (replicate n None) = []"
  by (induction n) (simp_all add: held_def)

lemma held_Nil [simp]: "held [] = []"
  by (simp add: held_def)

lemma held_Cons: "held (w # ws) = (case w of None \<Rightarrow> [] | Some t \<Rightarrow> [t]) @ held ws"
  by (simp add: held_def)

lemma held_take:
  "k < length ws \<Longrightarrow> ws ! k = None \<Longrightarrow>
     mset (map f (held (ws[k := Some t]))) = add_mset (f t) (mset (map f (held ws)))"
proof (induction ws arbitrary: k)
  case Nil
  then show ?case by simp
next
  case (Cons w ws)
  then show ?case by (cases k) (auto simp: held_Cons split: option.splits)
qed

lemma held_done:
  "k < length ws \<Longrightarrow> ws ! k = Some t \<Longrightarrow>
     mset (map f (held ws)) = add_mset (f t) (mset (map f (held (ws[k := None]))))"
proof (induction ws arbitrary: k)
  case Nil
  then show ?case by simp
next
  case (Cons w ws)
  then show ?case by (cases k) (auto simp: held_Cons split: option.splits)
qed

lemma coords_fetched [simp]: "coords (fetched t body) = coords t"
  by (simp add: coords_def fetched_def)

lemma write_tile_row:
  assumes "write_tile v t db = Inr db'"
  shows "db (row_key v t) = None" and "db' = db(row_key v t \<mapsto> Content t)"
  using assms
  by (auto simp: write_tile_def addToMBTile_def addToMBTile_gosm_def insert_tile_def row_key_def
      split: if_splits)

lemma write_tile_fresh:
  "db (row_key v t) = None \<Longrightarrow> write_tile v t db = Inr (db(row_key v t \<mapsto> Content t))"
  by (cases "v = Gosm")
     (simp_all add: write_tile_def addToMBTile_def addToMBTile_gosm_def insert_tile_def row_key_def)

lemma holds_rows_empty: "holds_rows v base [] base"
  by (simp add: holds_rows_def)

lemma holds_rows_write:
  assumes "holds_rows v base ts db" and "db (row_key v t) = None"
  shows "holds_rows v base (ts @ [t]) (db(row_key v t \<mapsto> Content t))"
proof -
  have fresh: "row_key v t \<notin> dom db" using assms(2) by auto
  from assms(1) have d: "distinct (map (row_key v) ts)"
    and i: "dom base \<inter> row_key v ` set ts = {}"
    and k: "dom db = dom base \<union> row_key v ` set ts"
    and b: "\<forall>k \<in> dom base. db k = base k"
    and c: "\<forall>u \<in> set ts. db (row_key v u) = Some (Content u)"
    by (simp_all add: holds_rows_def)
  have nb: "row_key v t \<notin> dom base" and nt: "row_key v t \<notin> row_key v ` set ts"
    using fresh k by auto
  have "distinct (map (row_key v) (ts @ [t]))" using d nt by simp
  moreover have "dom base \<inter> row_key v ` set (ts @ [t]) = {}" using i nb by auto
  moreover have "dom (db(row_key v t \<mapsto> Content t)) = dom base \<union> row_key v ` set (ts @ [t])"
    using k by auto
  moreover have "\<forall>k \<in> dom base. (db(row_key v t \<mapsto> Content t)) k = base k"
    using b nb by auto
  moreover have "\<forall>u \<in> set (ts @ [t]). (db(row_key v t \<mapsto> Content t)) (row_key v u) = Some (Content u)"
  proof
    fix u assume u: "u \<in> set (ts @ [t])"
    show "(db(row_key v t \<mapsto> Content t)) (row_key v u) = Some (Content u)"
    proof (cases "u \<in> set ts")
      case True
      then have "row_key v u \<in> row_key v ` set ts" by (rule imageI)
      then have "row_key v u \<noteq> row_key v t" using nt by auto
      then show ?thesis using c True by simp
    next
      case False
      then have "u = t" using u by simp
      then show ?thesis by simp
    qed
  qed
  ultimately show ?thesis unfolding holds_rows_def by blast
qed

lemma holds_rows_card:
  assumes "holds_rows v base ts db"
  shows "card (dom db - dom base) = length ts"
proof -
  from assms have d: "distinct (map (row_key v) ts)"
    and i: "dom base \<inter> row_key v ` set ts = {}"
    and k: "dom db = dom base \<union> row_key v ` set ts"
    by (simp_all add: holds_rows_def)
  have "dom db - dom base = row_key v ` set ts" using i k by auto
  also have "\<dots> = set (map (row_key v) ts)" by simp
  finally have "card (dom db - dom base) = card (set (map (row_key v) ts))" by simp
  also have "\<dots> = length (map (row_key v) ts)" using d by (rule distinct_card)
  finally show ?thesis by simp
qed

lemma conserved_length:
  assumes "mset (map coords (pending tiles s @ stored s)) = mset (map coords tiles)"
  shows "length (pending tiles s) + length (stored s) = length tiles"
proof -
  have "size (mset (map coords (pending tiles s @ stored s))) = size (mset (map coords tiles))"
    using assms by (rule arg_cong)
  then show ?thesis by simp
qed

lemma acked_le:
  assumes "mset (map coords (pending tiles s @ stored s)) = mset (map coords tiles)"
  shows "length (acked s) \<le> length tiles"
  using conserved_length [OF assms] by (simp add: stored_def)

lemma inv_initial: "pipeline_inv v env filename tiles fs (initial fs)"
  by (simp add: pipeline_inv_def initial_def)

lemma inv_step:
  assumes "step v env filename tiles s s'" and "pipeline_inv v env filename tiles fs s"
  shows "pipeline_inv v env filename tiles fs s'"
  using assms
proof (cases rule: step.cases)
  case no_tiles
  then show ?thesis using assms(2) by (simp add: pipeline_inv_def initial_def)
next
  case (prepare_ok fs' db)
  have s: "s = initial fs" using assms(2) prepare_ok(2) by (simp add: pipeline_inv_def)
  then have "prepareDatabase env fs filename = (fs', Inr db)"
    using prepare_ok(4) by (simp add: initial_def)
  then have f: "fs' filename = Some (surviving env fs filename)"
    using prepareDatabase_handle by blast
  show ?thesis
    unfolding prepare_ok(1) s
    by (simp add: pipeline_inv_def initial_def pending_def stored_def unsent_def holding_def
        written_def f holds_rows_empty)
next
  case (prepare_err fs' r err)
  then show ?thesis using assms(2) by (simp add: pipeline_inv_def initial_def)
next
  case (submit t rest)
  then show ?thesis using assms(2)
    by (auto simp: pipeline_inv_def pending_def stored_def unsent_def)
next
  case submitted
  then show ?thesis using assms(2)
    by (auto simp: pipeline_inv_def pending_def stored_def unsent_def)
next
  case (ack i t q)
  then show ?thesis using assms(2)
    by (auto simp: pipeline_inv_def pending_def stored_def unsent_def)
next
  case (finalize_ok i)
  from assms(2) finalize_ok(2) have
    m: "mset (map coords (pending tiles s @ stored s)) = mset (map coords tiles)"
    and i: "length (acked s) = i" and f: "finalized s = 0"
    and d: "\<exists>db. files s filename = Some db
              \<and> holds_rows v (surviving env fs filename) (stored s) db"
    by (simp_all add: pipeline_inv_def)
  have n: "length (acked s) = length tiles" using acked_le [OF m] i finalize_ok(3) by simp
  have p: "pending tiles s' = []"
    using conserved_length [OF m] n finalize_ok(1) m
    by (simp add: stored_def pending_def unsent_def)
  have "pending tiles s = []" using conserved_length [OF m] n by (simp add: stored_def)
  then have m': "mset (map coords (pending tiles s' @ stored s')) = mset (map coords tiles)"
    using m p by (simp add: finalize_ok(1) stored_def)
  show ?thesis
    using m' d n f by (simp add: pipeline_inv_def finalize_ok(1) stored_def)
next
  case (finalize_err i err)
  from assms(2) finalize_err(2) have
    m: "mset (map coords (pending tiles s @ stored s)) = mset (map coords tiles)"
    and i: "length (acked s) = i" and f: "finalized s = 0"
    by (simp_all add: pipeline_inv_def)
  have n: "length (acked s) = length tiles" using acked_le [OF m] i finalize_err(3) by simp
  show ?thesis using n f by (simp add: pipeline_inv_def finalize_err(1))
next
  case (fetch_take k t q)
  then show ?thesis using assms(2) held_take [of k "fetchers s" coords t]
    by (auto simp: pipeline_inv_def running_def pending_def stored_def split: main_pc.splits)
next
  case (fetch_ok k t body)
  then show ?thesis using assms(2) held_done [of k "fetchers s" t coords]
    by (auto simp: pipeline_inv_def running_def pending_def stored_def split: main_pc.splits)
next
  case (fetch_err k t)
  then show ?thesis using assms(2)
    by (auto simp: pipeline_inv_def running_def split: main_pc.splits)
next
  case (write_take t q)
  then show ?thesis using assms(2)
    by (auto simp: pipeline_inv_def running_def pending_def stored_def holding_def written_def
        split: main_pc.splits)
next
  case (write_ok t db db')
  note w = write_tile_row [OF write_ok(5)]
  have st: "stored s' = stored s @ [t]"
    by (simp add: write_ok(1,3) stored_def written_def)
  have h: "holds_rows v base (stored s) db \<Longrightarrow> holds_rows v base (stored s') db'" for base
    unfolding st w(2) using w(1) by (intro holds_rows_write)
  have m: "mset (map coords (pending tiles s' @ stored s'))
           = mset (map coords (pending tiles s @ stored s))"
    by (simp add: write_ok(1,3) pending_def stored_def holding_def written_def)
  have f: "files s' filename = Some db'" by (simp add: write_ok(1))
  have o: "pc s' = pc s" "acked s' = acked s" "finalized s' = finalized s"
    by (simp_all add: write_ok(1))
  show ?thesis
    using assms(2) write_ok(2,4) h
    unfolding pipeline_inv_def m f o
    by (auto simp: running_def split: main_pc.splits)
next
  case (write_err t)
  then show ?thesis using assms(2)
    by (auto simp: pipeline_inv_def running_def split: main_pc.splits)
next
  case (write_ack t)
  then show ?thesis using assms(2)
    by (auto simp: pipeline_inv_def running_def pending_def stored_def holding_def written_def
        split: main_pc.splits)
qed

lemma reachable_inv:
  "reachable v env filename tiles fs s \<Longrightarrow> pipeline_inv v env filename tiles fs s"
  by (induction rule: reachable.induct) (auto intro: inv_initial inv_step)

text \<open>
  Claim C3, as the code has it. In every reachable state \<open>optimizeDatabase\<close> has
  been called at most once, and when it has been called \<open>main\<close> had received
  exactly \<open>N = len(tiles)\<close> acknowledgments. When \<open>main\<close> has returned, it has been
  called exactly once; the \<open>N\<close> tiles acknowledged are the enumerated tiles, each
  with the coordinates it was enumerated with; their keys are \<open>N\<close> distinct keys,
  and the archive holds under each of them the content fetched for that tile. The
  archive holds these \<open>N\<close> rows and the rows it was opened with, and nothing else:
  exactly \<open>N\<close> rows when the removal of \<open>prepareDatabase\<close> did not fail or there was
  no file at the output path.
\<close>

theorem pipeline_completion:
  assumes "reachable v env filename tiles fs s"
  shows "finalized s \<le> 1
       \<and> (finalized s = 1 \<longrightarrow> length (acked s) = length tiles)
       \<and> (pc s = Done \<longrightarrow>
            finalized s = 1 \<and> length (acked s) = length tiles
            \<and> mset (map coords (acked s)) = mset (map coords tiles)
            \<and> (\<exists>db. files s filename = Some db
                  \<and> holds_rows v (surviving env fs filename) (acked s) db
                  \<and> card (dom db - dom (surviving env fs filename)) = length tiles
                  \<and> (\<not> remove_fails env \<or> fs filename = None \<longrightarrow>
                        dom db = row_key v ` set (acked s) \<and> card (dom db) = length tiles)))"
proof -
  have inv: "pipeline_inv v env filename tiles fs s" using assms by (rule reachable_inv)
  show ?thesis
  proof (cases "pc s")
    case Start
    then show ?thesis using inv by (simp add: pipeline_inv_def initial_def)
  next
    case (Dispatching rest)
    then show ?thesis using inv by (simp add: pipeline_inv_def)
  next
    case (Awaiting i)
    then show ?thesis using inv by (simp add: pipeline_inv_def)
  next
    case Done
    from inv Done have
      m: "mset (map coords (pending tiles s @ stored s)) = mset (map coords tiles)"
      and n: "length (acked s) = length tiles" and f: "finalized s = 1"
      by (simp_all add: pipeline_inv_def)
    from inv Done obtain db where db: "files s filename = Some db"
      "holds_rows v (surviving env fs filename) (stored s) db"
      by (auto simp: pipeline_inv_def)
    have l: "length (pending tiles s) + length (stored s) = length tiles"
      using m by (rule conserved_length)
    have e: "pending tiles s = []" "outputPipe s = []" "written (writer s) = []"
      using l n by (simp_all add: stored_def)
    have st: "stored s = acked s" using e by (simp add: stored_def)
    have m': "mset (map coords (acked s)) = mset (map coords tiles)" using m e st by simp
    have h: "holds_rows v (surviving env fs filename) (acked s) db" using db(2) st by simp
    have c: "card (dom db - dom (surviving env fs filename)) = length tiles"
      using holds_rows_card [OF h] n by simp
    have "dom db = row_key v ` set (acked s) \<and> card (dom db) = length tiles"
      if "\<not> remove_fails env \<or> fs filename = None"
    proof -
      have "surviving env fs filename = Map.empty"
        using that surviving_removed surviving_absent by blast
      then show ?thesis using h c by (simp add: holds_rows_def)
    qed
    then show ?thesis using Done n f m' db(1) h c by auto
  next
    case (Exited r)
    then show ?thesis using inv by (simp add: pipeline_inv_def)
  qed
qed

section \<open>A run in which nothing fails\<close>

lemma row_key_fetched [simp]: "row_key v (fetched t body) = row_key v t"
  by (simp add: row_key_def fetched_def flipped_y_def)

lemma Content_fetched [simp]: "Content (fetched t body) = body"
  by (simp add: fetched_def)

lemma rows_added_Cons:
  "rows_added v body (t # ts) db = rows_added v body ts (db(row_key v t \<mapsto> body t))"
  by (simp add: rows_added_def)

lemma rows_added_Nil [simp]: "rows_added v body [] db = db"
  by (simp add: rows_added_def)

lemma rows_added_other:
  "k \<notin> row_key v ` set ts \<Longrightarrow> rows_added v body ts db k = db k"
  by (induction ts arbitrary: db) (simp_all add: rows_added_Cons)

text \<open>
  The send loop of \<open>main\<close> runs to its end: the channel has room for every tile.
\<close>

lemma submit_all:
  assumes "reachable v env filename tiles fs s" and "pc s = Dispatching rest"
    and "length (inputPipe s) + length rest \<le> length tiles"
  shows "reachable v env filename tiles fs
           (s\<lparr>pc := Dispatching [], inputPipe := inputPipe s @ rest\<rparr>)"
  using assms
proof (induction rest arbitrary: s)
  case Nil
  then have "s\<lparr>pc := Dispatching [], inputPipe := inputPipe s @ []\<rparr> = s" by simp
  then show ?case using Nil.prems(1) by simp
next
  case (Cons t rest)
  let ?s1 = "s\<lparr>pc := Dispatching rest, inputPipe := inputPipe s @ [t]\<rparr>"
  have "step v env filename tiles s ?s1"
    using Cons.prems(2,3) by (intro step.submit) simp_all
  then have r: "reachable v env filename tiles fs ?s1"
    using Cons.prems(1) by (rule reachable.after_step [rotated])
  have "reachable v env filename tiles fs
          (?s1\<lparr>pc := Dispatching [], inputPipe := inputPipe ?s1 @ rest\<rparr>)"
    using r Cons.prems(3) by (intro Cons.IH) simp_all
  then show ?case by simp
qed

text \<open>
  The workers are idle and the channels behind \<open>inputPipe\<close> are empty.
\<close>

lemma one_tile_through:
  assumes r: "reachable v env filename tiles fs s"
    and pc: "pc s = Awaiting (length (acked s))"
    and idle: "fetchers s = replicate 20 None" "tilePipe s = []" "writer s = WIdle"
      "outputPipe s = []"
    and inp: "inputPipe s = t # ts"
    and db: "files s filename = Some db" "db (row_key v t) = None"
    and len: "length (acked s) < length tiles"
  shows "reachable v env filename tiles fs
           (s\<lparr>pc := Awaiting (length (acked s) + 1), inputPipe := ts,
              files := (files s)(filename \<mapsto> db(row_key v t \<mapsto> body t)),
              acked := acked s @ [fetched t (body t)]\<rparr>)"
proof -
  let ?ft = "fetched t (body t)"
  let ?step = "step v env filename tiles"
  let ?reach = "reachable v env filename tiles fs"
  have run: "running s" using pc by (simp add: running_def)
  have pos: "tiles \<noteq> []" using len by auto
  define s1 where "s1 = s\<lparr>fetchers := (fetchers s)[0 := Some t], inputPipe := ts\<rparr>"
  define s2 where "s2 = s1\<lparr>fetchers := (fetchers s1)[0 := None], tilePipe := tilePipe s1 @ [?ft]\<rparr>"
  define s3 where "s3 = s2\<lparr>writer := WHolding ?ft, tilePipe := []\<rparr>"
  define s4 where "s4 = s3\<lparr>writer := WWritten ?ft,
                          files := (files s3)(filename \<mapsto> db(row_key v t \<mapsto> body t))\<rparr>"
  define s5 where "s5 = s4\<lparr>writer := WIdle, outputPipe := outputPipe s4 @ [?ft]\<rparr>"
  define s6 where "s6 = s5\<lparr>pc := Awaiting (length (acked s) + 1), outputPipe := [],
                          acked := acked s5 @ [?ft]\<rparr>"
  note defs = s1_def s2_def s3_def s4_def s5_def s6_def
  have "?step s s1" unfolding s1_def
    using run inp idle(1) by (intro step.fetch_take) simp_all
  then have r1: "?reach s1" using r by (rule reachable.after_step [rotated])
  have "?step s1 s2" unfolding s2_def
    using run idle pos by (intro step.fetch_ok) (simp_all add: s1_def running_def)
  then have r2: "?reach s2" using r1 by (rule reachable.after_step [rotated])
  have "?step s2 s3" unfolding s3_def
    using run idle by (intro step.write_take) (simp_all add: s1_def s2_def running_def)
  then have r3: "?reach s3" using r2 by (rule reachable.after_step [rotated])
  have w: "write_tile v ?ft db = Inr (db(row_key v t \<mapsto> body t))"
    using write_tile_fresh [of db v ?ft] db(2) by simp
  have "?step s3 s4" unfolding s4_def
    using run db(1) w
    by (intro step.write_ok [where db = db]) (simp_all add: s1_def s2_def s3_def running_def)
  then have r4: "?reach s4" using r3 by (rule reachable.after_step [rotated])
  have "?step s4 s5" unfolding s5_def
    using run idle pos
    by (intro step.write_ack) (simp_all add: s1_def s2_def s3_def s4_def running_def)
  then have r5: "?reach s5" using r4 by (rule reachable.after_step [rotated])
  have "?step s5 s6" unfolding s6_def
    using pc len idle
    by (intro step.ack [where t = ?ft and i = "length (acked s)"]) (simp_all add: defs)
  then have r6: "?reach s6" using r5 by (rule reachable.after_step [rotated])
  have same: "(replicate 20 (None :: Tile option))[0 := None] = replicate 20 None"
    by (simp add: list_eq_iff_nth_eq nth_list_update)
  have "s6 = s\<lparr>pc := Awaiting (length (acked s) + 1), inputPipe := ts,
              files := (files s)(filename \<mapsto> db(row_key v t \<mapsto> body t)),
              acked := acked s @ [fetched t (body t)]\<rparr>"
    by (rule pipeline.equality) (simp_all add: defs idle same)
  then show ?thesis using r6 by simp
qed

lemma all_tiles_through:
  assumes "reachable v env filename tiles fs s"
    and "pc s = Awaiting (length (acked s))"
    and "fetchers s = replicate 20 None" "tilePipe s = []" "writer s = WIdle" "outputPipe s = []"
    and "inputPipe s = ts"
    and "files s filename = Some db"
    and "distinct (map (row_key v) ts)" and "\<forall>t \<in> set ts. db (row_key v t) = None"
    and "length (acked s) + length ts \<le> length tiles"
  shows "reachable v env filename tiles fs
           (s\<lparr>pc := Awaiting (length (acked s) + length ts), inputPipe := [],
              files := (files s)(filename \<mapsto> rows_added v body ts db),
              acked := acked s @ map (\<lambda>t. fetched t (body t)) ts\<rparr>)"
  using assms
proof (induction ts arbitrary: s db)
  case Nil
  have "s\<lparr>pc := Awaiting (length (acked s) + length []), inputPipe := [],
          files := (files s)(filename \<mapsto> rows_added v body [] db),
          acked := acked s @ map (\<lambda>t. fetched t (body t)) []\<rparr> = s"
    using Nil.prems(2,7,8) by (simp add: fun_upd_idem)
  then show ?case using Nil.prems(1) by (rule ssubst)
next
  case (Cons t ts)
  let ?s1 = "s\<lparr>pc := Awaiting (length (acked s) + 1), inputPipe := ts,
              files := (files s)(filename \<mapsto> db(row_key v t \<mapsto> body t)),
              acked := acked s @ [fetched t (body t)]\<rparr>"
  have r1: "reachable v env filename tiles fs ?s1"
    using Cons.prems by (intro one_tile_through) simp_all
  have fresh: "\<forall>u \<in> set ts. (db(row_key v t \<mapsto> body t)) (row_key v u) = None"
  proof
    fix u assume u: "u \<in> set ts"
    then have "row_key v u \<in> row_key v ` set ts" by (rule imageI)
    moreover have "row_key v t \<notin> row_key v ` set ts" using Cons.prems(9) by simp
    ultimately have "row_key v u \<noteq> row_key v t" by auto
    then show "(db(row_key v t \<mapsto> body t)) (row_key v u) = None"
      using Cons.prems(10) u by simp
  qed
  have "reachable v env filename tiles fs
          (?s1\<lparr>pc := Awaiting (length (acked ?s1) + length ts), inputPipe := [],
              files := (files ?s1)(filename \<mapsto> rows_added v body ts (db(row_key v t \<mapsto> body t))),
              acked := acked ?s1 @ map (\<lambda>t. fetched t (body t)) ts\<rparr>)"
  proof (rule Cons.IH [OF r1])
    show "pc ?s1 = Awaiting (length (acked ?s1))" by simp
    show "fetchers ?s1 = replicate 20 None" using Cons.prems(3) by simp
    show "tilePipe ?s1 = []" using Cons.prems(4) by simp
    show "writer ?s1 = WIdle" using Cons.prems(5) by simp
    show "outputPipe ?s1 = []" using Cons.prems(6) by simp
    show "inputPipe ?s1 = ts" by simp
    show "files ?s1 filename = Some (db(row_key v t \<mapsto> body t))" by simp
    show "distinct (map (row_key v) ts)" using Cons.prems(9) by simp
    show "\<forall>u \<in> set ts. (db(row_key v t \<mapsto> body t)) (row_key v u) = None" by (rule fresh)
    show "length (acked ?s1) + length ts \<le> length tiles" using Cons.prems(11) by simp
  qed
  moreover have "s\<lparr>pc := Awaiting (length (acked s) + length (t # ts)), inputPipe := [],
              files := (files s)(filename \<mapsto> rows_added v body (t # ts) db),
              acked := acked s @ map (\<lambda>t. fetched t (body t)) (t # ts)\<rparr>
        = ?s1\<lparr>pc := Awaiting (length (acked ?s1) + length ts), inputPipe := [],
              files := (files ?s1)(filename \<mapsto> rows_added v body ts (db(row_key v t \<mapsto> body t))),
              acked := acked ?s1 @ map (\<lambda>t. fetched t (body t)) ts\<rparr>"
    by (rule pipeline.equality) (simp_all add: rows_added_Cons)
  ultimately show ?case by (simp only:)
qed

text \<open>
  When nothing fails and the keys of the tiles are distinct and new to the archive
  that is opened, the run ends in the state \<open>completed\<close>: the sends, then for each
  tile its fetch, its insertion, its acknowledgment and the receipt by \<open>main\<close>, then
  \<open>optimizeDatabase\<close>.
\<close>

lemma run_completes:
  assumes prep: "prepareDatabase env fs filename = (fs', Inr db)"
    and tables: "setupMBTileTables v env = Inr ()"
    and final: "optimizeDatabase env = Inr ()"
    and ne: "\<not> (checks_empty v \<and> tiles = [])"
    and dist: "distinct (map (row_key v) tiles)"
    and fresh: "\<forall>t \<in> set tiles. surviving env fs filename (row_key v t) = None"
  shows "reachable v env filename tiles fs
           (completed v filename body tiles fs' (surviving env fs filename))"
proof -
  let ?step = "step v env filename tiles"
  let ?reach = "reachable v env filename tiles fs"
  let ?base = "surviving env fs filename"
  have f: "fs' filename = Some ?base" using prep prepareDatabase_handle by blast
  define s1 where "s1 = (initial fs)\<lparr>pc := Dispatching tiles, files := fs',
          inputPipe := [], tilePipe := [], outputPipe := [],
          fetchers := replicate 20 None, writer := WIdle\<rparr>"
  define s2 where "s2 = s1\<lparr>pc := Dispatching [], inputPipe := inputPipe s1 @ tiles\<rparr>"
  define s3 where "s3 = s2\<lparr>pc := Awaiting 0\<rparr>"
  define s4 where "s4 = s3\<lparr>pc := Awaiting (length (acked s3) + length tiles), inputPipe := [],
              files := (files s3)(filename \<mapsto> rows_added v body tiles ?base),
              acked := acked s3 @ map (\<lambda>t. fetched t (body t)) tiles\<rparr>"
  define s5 where "s5 = s4\<lparr>pc := Done, finalized := finalized s4 + 1\<rparr>"
  have r0: "?reach (initial fs)" by (rule reachable.at_start)
  have "?step (initial fs) s1" unfolding s1_def
    using ne prep tables by (intro step.prepare_ok [where db = db]) (simp_all add: initial_def)
  then have r1: "?reach s1" using r0 by (rule reachable.after_step [rotated])
  have r2: "?reach s2" unfolding s2_def
    using r1 by (intro submit_all) (simp_all add: s1_def initial_def)
  have "?step s2 s3" unfolding s3_def by (intro step.submitted) (simp add: s2_def)
  then have r3: "?reach s3" using r2 by (rule reachable.after_step [rotated])
  have r4: "?reach s4" unfolding s4_def
    using r3 f dist fresh
    by (intro all_tiles_through) (simp_all add: s3_def s2_def s1_def initial_def)
  have "?step s4 s5" unfolding s5_def
    using final
    by (intro step.finalize_ok [where i = "length tiles"])
       (simp_all add: s4_def s3_def s2_def s1_def initial_def)
  then have r5: "?reach s5" using r4 by (rule reachable.after_step [rotated])
  have "s5 = completed v filename body tiles fs' ?base"
    by (simp add: s5_def s4_def s3_def s2_def s1_def initial_def completed_def)
  then show ?thesis using r5 by simp
qed

lemma env_ok_setup: "setupMBTileTables v env_ok = Inr ()"
  by (simp add: setupMBTileTables_def env_ok_def)

lemma env_ok_finalize: "optimizeDatabase env_ok = Inr ()"
  by (simp add: optimizeDatabase_def env_ok_def)

lemma env_stuck_setup: "setupMBTileTables v env_stuck = Inr ()"
  by (simp add: setupMBTileTables_def env_stuck_def)

lemma env_stuck_finalize: "optimizeDatabase env_stuck = Inr ()"
  by (simp add: optimizeDatabase_def env_stuck_def)

lemma flipped_y_level_1: "flipped_y (mkTile 1 i 1) = 0"
  using flipped_y_eq [of "mkTile 1 i 1"] by (simp add: mkTile_def)

lemma row_key_level_1: "row_key Mbutil (mkTile 1 i 1) = (1, i, 0)"
  by (simp add: row_key_def flipped_y_level_1) (simp add: mkTile_def)

text \<open>
  A complete run with two tiles over an old archive that is removed: each tile is
  fetched, inserted under the flipped row and acknowledged, and the store is
  finalized. The archive holds the two new rows, and the old row is gone.
\<close>

theorem pipeline_completion_witness:
  "reachable Mbutil env_ok ''out.mbtiles'' [mkTile 1 0 1, mkTile 1 1 1] old_disk
     (completed Mbutil ''out.mbtiles'' (\<lambda>t. [nat (tile_x t)]) [mkTile 1 0 1, mkTile 1 1 1]
        (old_disk(''out.mbtiles'' \<mapsto> Map.empty)) Map.empty)
   \<and> completed Mbutil ''out.mbtiles'' (\<lambda>t. [nat (tile_x t)]) [mkTile 1 0 1, mkTile 1 1 1]
        (old_disk(''out.mbtiles'' \<mapsto> Map.empty)) Map.empty
       = \<lparr>pc = Done, inputPipe = [], fetchers = replicate 20 None, tilePipe = [],
          writer = WIdle, outputPipe = [],
          files = old_disk(''out.mbtiles'' \<mapsto> [(1, 0, 0) \<mapsto> [0], (1, 1, 0) \<mapsto> [1]]),
          acked = [\<lparr>tile_z = 1, tile_x = 0, tile_y = 1, Content = [0]\<rparr>,
                   \<lparr>tile_z = 1, tile_x = 1, tile_y = 1, Content = [1]\<rparr>],
          finalized = 1\<rparr>
   \<and> card (dom [(1, 0, 0) \<mapsto> [0::nat], (1::int, 1::int, 0::int) \<mapsto> [1]]) = 2
   \<and> dom [(1, 0, 0) \<mapsto> [0::nat], (1::int, 1::int, 0::int) \<mapsto> [1]] = {(1, 0, 0), (1, 1, 0)}"
proof -
  let ?tiles = "[mkTile 1 0 1, mkTile 1 1 1]"
  let ?body = "\<lambda>t. [nat (tile_x t)]"
  let ?s = "completed Mbutil ''out.mbtiles'' ?body ?tiles (old_disk(''out.mbtiles'' \<mapsto> Map.empty)) Map.empty"
  have base: "surviving env_ok old_disk ''out.mbtiles'' = Map.empty"
    by (simp add: surviving_removed env_ok_def)
  have "reachable Mbutil env_ok ''out.mbtiles'' ?tiles old_disk
          (completed Mbutil ''out.mbtiles'' ?body ?tiles (old_disk(''out.mbtiles'' \<mapsto> Map.empty))
             (surviving env_ok old_disk ''out.mbtiles''))"
    by (rule run_completes [where db = "''out.mbtiles''"])
       (simp_all add: env_ok_prepare env_ok_setup env_ok_finalize base row_key_level_1)
  then have r: "reachable Mbutil env_ok ''out.mbtiles'' ?tiles old_disk ?s" by (simp only: base)
  have e: "?s = \<lparr>pc = Done, inputPipe = [], fetchers = replicate 20 None, tilePipe = [],
          writer = WIdle, outputPipe = [],
          files = old_disk(''out.mbtiles'' \<mapsto> [(1, 0, 0) \<mapsto> [0], (1, 1, 0) \<mapsto> [1]]),
          acked = [\<lparr>tile_z = 1, tile_x = 0, tile_y = 1, Content = [0]\<rparr>,
                   \<lparr>tile_z = 1, tile_x = 1, tile_y = 1, Content = [1]\<rparr>],
          finalized = 1\<rparr>"
    by (simp add: completed_def rows_added_def row_key_level_1 fetched_def) (simp add: mkTile_def)
  have nf: "\<not> remove_fails env_ok" by (simp add: env_ok_def)
  have k: "row_key Mbutil ` set (acked ?s) = {(1, 0, 0), (1, 1, 0)}"
    using row_key_level_1 [of 0] row_key_level_1 [of 1]
    by (simp add: completed_def insert_commute)
  have fe: "files ?s ''out.mbtiles'' = Some [(1, 0, 0) \<mapsto> [0], (1, 1, 0) \<mapsto> [1]]"
    by (simp add: e)
  have d: "pc ?s = Done" by (simp add: completed_def)
  from pipeline_completion [OF r] d nf obtain db where
    db: "files ?s ''out.mbtiles'' = Some db"
      "dom db = row_key Mbutil ` set (acked ?s)" "card (dom db) = length ?tiles"
    by blast
  have "db = [(1, 0, 0) \<mapsto> [0], (1, 1, 0) \<mapsto> [1]]" using db(1) fe by simp
  then have "dom [(1, 0, 0) \<mapsto> [0::nat], (1::int, 1::int, 0::int) \<mapsto> [1]] = {(1, 0, 0), (1, 1, 0)}
             \<and> card (dom [(1, 0, 0) \<mapsto> [0::nat], (1::int, 1::int, 0::int) \<mapsto> [1]]) = 2"
    using db(2,3) k by simp
  then show ?thesis using r e by blast
qed

text \<open>
  A successful run of \<open>src/mbutil.go\<close> with one tile, \<open>N = 1\<close>, that leaves two rows in
  the archive. The system refuses to remove the file at the output path, a
  database whose table \<open>tiles\<close> holds one row; \<open>prepareDatabase\<close> discards the error
  and opens that file. The tile is fetched, inserted and acknowledged, the store
  is finalized, and the archive holds the old row and the new one.
\<close>

theorem pipeline_surviving_rows_counterexample:
  "reachable Mbutil env_stuck ''out.mbtiles'' [mkTile 1 1 1] old_disk
     \<lparr>pc = Done, inputPipe = [], fetchers = replicate 20 None, tilePipe = [],
      writer = WIdle, outputPipe = [],
      files = old_disk(''out.mbtiles'' \<mapsto> [(1, 0, 0) \<mapsto> [1, 2, 3], (1, 1, 0) \<mapsto> [7]]),
      acked = [\<lparr>tile_z = 1, tile_x = 1, tile_y = 1, Content = [7]\<rparr>],
      finalized = 1\<rparr>
   \<and> length [mkTile 1 1 1] = 1
   \<and> card (dom [(1, 0, 0) \<mapsto> [1, 2, 3::nat], (1::int, 1::int, 0::int) \<mapsto> [7]]) = 2"
proof -
  let ?tiles = "[mkTile 1 1 1]"
  let ?body = "\<lambda>t::Tile. [7::nat]"
  have old: "old_disk ''out.mbtiles'' = Some [(1, 0, 0) \<mapsto> [1, 2, 3]]" by (simp add: old_disk_def)
  have base: "surviving env_stuck old_disk ''out.mbtiles'' = [(1, 0, 0) \<mapsto> [1, 2, 3]]"
    by (rule surviving_kept) (simp_all add: env_stuck_def old)
  have "reachable Mbutil env_stuck ''out.mbtiles'' ?tiles old_disk
          (completed Mbutil ''out.mbtiles'' ?body ?tiles old_disk
             (surviving env_stuck old_disk ''out.mbtiles''))"
    by (rule run_completes [where db = "''out.mbtiles''"])
       (simp_all add: env_stuck_prepare [of old_disk "''out.mbtiles''", OF old] env_stuck_setup env_stuck_finalize base
          row_key_level_1 checks_empty_def)
  moreover have "completed Mbutil ''out.mbtiles'' ?body ?tiles old_disk
             (surviving env_stuck old_disk ''out.mbtiles'')
       = \<lparr>pc = Done, inputPipe = [], fetchers = replicate 20 None, tilePipe = [],
          writer = WIdle, outputPipe = [],
          files = old_disk(''out.mbtiles'' \<mapsto> [(1, 0, 0) \<mapsto> [1, 2, 3], (1, 1, 0) \<mapsto> [7]]),
          acked = [\<lparr>tile_z = 1, tile_x = 1, tile_y = 1, Content = [7]\<rparr>],
          finalized = 1\<rparr>"
    unfolding base
    by (simp add: completed_def rows_added_def row_key_level_1 fetched_def) (simp add: mkTile_def)
  ultimately have "reachable Mbutil env_stuck ''out.mbtiles'' ?tiles old_disk
     \<lparr>pc = Done, inputPipe = [], fetchers = replicate 20 None, tilePipe = [],
      writer = WIdle, outputPipe = [],
      files = old_disk(''out.mbtiles'' \<mapsto> [(1, 0, 0) \<mapsto> [1, 2, 3], (1, 1, 0) \<mapsto> [7]]),
      acked = [\<lparr>tile_z = 1, tile_x = 1, tile_y = 1, Content = [7]\<rparr>],
      finalized = 1\<rparr>"
    by (simp only:)
  then show ?thesis by simp
qed

lemma TileList_default_flags:
  "TileList lib (NewProjection (to_f64 55.397945) (to_f64 25.291090)
                   (to_f64 55.402741) (to_f64 25.292889) 19 17) = Inr []"
  by (simp add: TileList_NewProjection)

text \<open>
  Claim C4 at the default flags of \<open>src/mbutil.go\<close> (zoom 19 to 17, an empty zoom
  range): the enumeration is empty, and \<open>main\<close> reports no error. It removes the
  archive at the output path, creates an empty one, calls \<open>optimizeDatabase\<close>
  and returns.
\<close>

theorem mbutil_zero_tiles_finalizes:
  "TileList lib (NewProjection (to_f64 55.397945) (to_f64 25.291090)
                   (to_f64 55.402741) (to_f64 25.292889) 19 17) = Inr []
   \<and> reachable Mbutil env_ok ''out.mbtiles'' [] old_disk
       \<lparr>pc = Done, inputPipe = [], fetchers = replicate 20 None, tilePipe = [],
        writer = WIdle, outputPipe = [],
        files = old_disk(''out.mbtiles'' \<mapsto> Map.empty), acked = [], finalized = 1\<rparr>"
proof -
  have base: "surviving env_ok old_disk ''out.mbtiles'' = Map.empty"
    by (simp add: surviving_removed env_ok_def)
  have "reachable Mbutil env_ok ''out.mbtiles'' [] old_disk
          (completed Mbutil ''out.mbtiles'' (\<lambda>t. []) [] (old_disk(''out.mbtiles'' \<mapsto> Map.empty))
             (surviving env_ok old_disk ''out.mbtiles''))"
    by (rule run_completes [where db = "''out.mbtiles''"])
       (simp_all add: env_ok_prepare env_ok_setup env_ok_finalize checks_empty_def)
  then have "reachable Mbutil env_ok ''out.mbtiles'' [] old_disk
       \<lparr>pc = Done, inputPipe = [], fetchers = replicate 20 None, tilePipe = [],
        writer = WIdle, outputPipe = [],
        files = old_disk(''out.mbtiles'' \<mapsto> Map.empty), acked = [], finalized = 1\<rparr>"
    by (simp add: base completed_def)
  then show ?thesis using TileList_default_flags by simp
qed

text \<open>
  The second program of \<open>part_000\<close> has the test: with no tiles it exits at once;
  no store is prepared and nothing is finalized.
\<close>

lemma versioned_zero_tiles_exits:
  assumes "reachable Versioned env filename [] fs s"
  shows "s = initial fs \<or> s = (initial fs)\<lparr>pc := Exited NotEnoughTiles\<rparr>"
  using assms
proof (induction rule: reachable.induct)
  case at_start
  then show ?case by simp
next
  case (after_step s s')
  from after_step.IH show ?case
  proof
    assume s: "s = initial fs"
    from after_step.hyps(2) show ?thesis
      by (cases rule: step.cases)
         (simp_all add: s initial_def checks_empty_def running_def)
  next
    assume s: "s = (initial fs)\<lparr>pc := Exited NotEnoughTiles\<rparr>"
    from after_step.hyps(2) show ?thesis
      by (cases rule: step.cases) (simp_all add: s initial_def running_def)
  qed
qed

end
